theory Spec2Isabelle
  imports Complex_Main "HOL-Library.Sublist"
begin

section \<open>Values, errors and the numpy primitives used by optim\_mixed.py\<close>

text \<open>
  Floating-point numbers are modelled as real numbers. The three places where the module
  itself produces a non-finite number (the literal \<open>np.inf\<close>, a numpy division by zero,
  the minimum of an empty difference array) use \<open>xreal\<close>. Python exceptions are values of
  \<open>py_error\<close> (an assertion error carries the message of its \<open>assert\<close>); a function that
  can raise returns \<open>py_error + 'a\<close>. One-dimensional arrays are lists, a two-dimensional
  array is a list of rows.

  Not modelled: rounding, overflow and nan inside the evaluator or a solver; the kernel's
  inverse squared lengthscales are taken to be positive, as squares of reciprocals are, so
  that \<open>1 / np.sqrt\<close> of them is an ordinary real number; \<open>assert isinstance(f_vals,
  np.ndarray)\<close> holds by the type of the pool's values.
\<close>

datatype py_error = AssertionError string | ValueError | IndexError

type_synonym vec = "real list"

datatype xreal = Fin real | PInf | MInf | NaN

fun xneg :: "xreal \<Rightarrow> xreal" where
  "xneg (Fin a) = Fin (- a)"
| "xneg PInf = MInf"
| "xneg MInf = PInf"
| "xneg NaN = NaN"

fun xadd :: "xreal \<Rightarrow> xreal \<Rightarrow> xreal" where
  "xadd NaN _ = NaN"
| "xadd _ NaN = NaN"
| "xadd (Fin a) (Fin b) = Fin (a + b)"
| "xadd PInf MInf = NaN"
| "xadd MInf PInf = NaN"
| "xadd PInf _ = PInf"
| "xadd _ PInf = PInf"
| "xadd MInf _ = MInf"
| "xadd _ MInf = MInf"

definition xsub :: "xreal \<Rightarrow> xreal \<Rightarrow> xreal" where
  "xsub a b = xadd a (xneg b)"

definition xinf_times :: "bool \<Rightarrow> real \<Rightarrow> xreal" where
  \<comment> \<open>an infinity (positive when the flag holds) times a finite number\<close>
  "xinf_times pos b = (if b = 0 then NaN else if (0 < b) = pos then PInf else MInf)"

fun xmul :: "xreal \<Rightarrow> xreal \<Rightarrow> xreal" where
  "xmul NaN _ = NaN"
| "xmul _ NaN = NaN"
| "xmul (Fin a) (Fin b) = Fin (a * b)"
| "xmul PInf (Fin b) = xinf_times True b"
| "xmul MInf (Fin b) = xinf_times False b"
| "xmul (Fin a) PInf = xinf_times True a"
| "xmul (Fin a) MInf = xinf_times False a"
| "xmul PInf PInf = PInf"
| "xmul MInf MInf = PInf"
| "xmul PInf MInf = MInf"
| "xmul MInf PInf = MInf"

definition np_true_divide :: "real \<Rightarrow> real \<Rightarrow> xreal" where
  \<comment> \<open>numpy division of float64 values: a zero divisor gives nan or an infinity, no exception\<close>
  "np_true_divide a b =
     (if b = 0 then (if a = 0 then NaN else if 0 < a then PInf else MInf) else Fin (a / b))"

fun xquarter :: "xreal \<Rightarrow> xreal" where
  "xquarter (Fin a) = Fin (a / 4)"
| "xquarter x = x"

definition py_get :: "'a list \<Rightarrow> int \<Rightarrow> py_error + 'a" where
  \<comment> \<open>\<open>xs[i]\<close> for a Python integer \<open>i\<close>; the indices \<open>-len(xs), ..., -1\<close> count from the end\<close>
  "py_get xs i =
     (if 0 \<le> i \<and> i < int (length xs) then Inr (xs ! nat i)
      else if - int (length xs) \<le> i \<and> i < 0 then Inr (xs ! nat (int (length xs) + i))
      else Inl IndexError)"

definition np_clip :: "int \<Rightarrow> int \<Rightarrow> int \<Rightarrow> int" where
  "np_clip a a_min a_max = min a_max (max a a_min)"

function bisect_left :: "vec \<Rightarrow> real \<Rightarrow> nat \<Rightarrow> nat \<Rightarrow> nat" where
  "bisect_left a key lo hi =
     (if lo < hi
      then (let mid = lo + (hi - lo) div 2
            in if a ! mid < key then bisect_left a key (mid + 1) hi
               else bisect_left a key lo mid)
      else lo)"
  by pat_completeness auto
termination
  by (relation "measure (\<lambda>(a, key, lo, hi). hi - lo)") auto

declare bisect_left.simps [simp del]

definition searchsorted :: "vec \<Rightarrow> real \<Rightarrow> nat" where
  \<comment> \<open>\<open>np.searchsorted(a, v)\<close> with the default \<open>side='left'\<close>: a binary search\<close>
  "searchsorted a v = bisect_left a v 0 (length a)"

fun argmax_from :: "nat \<Rightarrow> real \<Rightarrow> nat \<Rightarrow> real list \<Rightarrow> nat" where
  "argmax_from bi bv i [] = bi"
| "argmax_from bi bv i (x # xs) =
     (if bv < x then argmax_from i x (Suc i) xs else argmax_from bi bv (Suc i) xs)"

fun np_argmax :: "real list \<Rightarrow> py_error + nat" where
  \<comment> \<open>the first index of the maximum; numpy raises ValueError on an empty array\<close>
  "np_argmax [] = Inl ValueError"
| "np_argmax (x # xs) = Inr (argmax_from 0 x 1 xs)"

section \<open>The acquisition function bundle and the external solvers\<close>

text \<open>
  Modelled from the spec: the enum \<open>ScaleType\<close> is declared in
  \<open>optuna._gp.search_space\<close>, outside the sources; the module only names its member
  \<open>CATEGORICAL\<close>.
\<close>

datatype ScaleType = LINEAR | LOG | CATEGORICAL

record SearchSpace =
  scale_types :: "ScaleType list"
  bounds :: "(real \<times> real) list"
  steps :: "real list"

text \<open>
  \<open>eval_acqf_no_grad\<close> and \<open>eval_acqf_with_grad\<close> are external and pure functions of the
  bundle and the point, so the bundle carries them: \<open>acqf\<close> is the value, \<open>acqf_grad\<close> the
  gradient.
\<close>

record AcquisitionFunctionParams =
  search_space :: SearchSpace
  inverse_squared_lengthscales :: "real list"
  acqf :: "vec \<Rightarrow> real"
  acqf_grad :: "vec \<Rightarrow> vec"

text \<open>
  A scipy solver is a black box that learns about its objective only by calling it. It is a
  tree: it either stops with its result or asks for the objective at a point and goes on
  with the answer. Every such tree is finite, so a solver always returns.
\<close>

datatype ('q, 'a, 'r) solver = Stop 'r | Ask 'q "'a \<Rightarrow> ('q, 'a, 'r) solver"

primrec run_solver ::
  "('q, 'a, 'r) solver \<Rightarrow> ('q \<Rightarrow> 's \<Rightarrow> (py_error + 'a) \<times> 's) \<Rightarrow> 's \<Rightarrow> (py_error + 'r) \<times> 's"
where
  "run_solver (Stop r) f s = (Inr r, s)"
| "run_solver (Ask q k) f s =
     (case f q s of
        (Inl e, s') \<Rightarrow> (Inl e, s')
      | (Inr a, s') \<Rightarrow> run_solver (k a) f s')"


record 'r externals =
  fmin_l_bfgs_b ::
    "xreal list \<Rightarrow> (real \<times> xreal) list \<Rightarrow> real \<Rightarrow> nat \<Rightarrow> (vec, real \<times> vec, vec \<times> real \<times> int) solver"
  minimize_scalar_brent :: "real \<times> real \<times> real \<Rightarrow> xreal \<Rightarrow> (real, xreal, real) solver"
  normalize_one_param :: "vec \<Rightarrow> ScaleType \<Rightarrow> real \<times> real \<Rightarrow> real \<Rightarrow> vec"
  sample_normalized_params :: "int \<Rightarrow> SearchSpace \<Rightarrow> 'r \<Rightarrow> vec list \<times> 'r"
  rng_choice :: "nat \<Rightarrow> int \<Rightarrow> xreal list \<Rightarrow> 'r \<Rightarrow> (py_error + nat list) \<times> 'r"
  default_rng :: 'r

section \<open>Array operations with numpy's errors\<close>

definition np_mul :: "vec \<Rightarrow> vec \<Rightarrow> py_error + vec" where
  \<comment> \<open>elementwise product of one-dimensional arrays; a length-one operand is broadcast\<close>
  "np_mul xs ys =
     (if length xs = length ys then Inr (map2 (*) xs ys)
      else if length xs = 1 then Inr (map ((*) (hd xs)) ys)
      else if length ys = 1 then Inr (map (\<lambda>x. x * hd ys) xs)
      else Inl ValueError)"

definition np_div :: "vec \<Rightarrow> vec \<Rightarrow> py_error + xreal list" where
  "np_div xs ys =
     (if length xs = length ys then Inr (map2 np_true_divide xs ys)
      else if length xs = 1 then Inr (map (np_true_divide (hd xs)) ys)
      else if length ys = 1 then Inr (map (\<lambda>x. np_true_divide x (hd ys)) xs)
      else Inl ValueError)"

definition np_take :: "'a list \<Rightarrow> nat list \<Rightarrow> py_error + 'a list" where
  \<comment> \<open>\<open>a[idx]\<close> for an array of non-negative indices\<close>
  "np_take a idx =
     (if \<forall>i \<in> set idx. i < length a then Inr (map ((!) a) idx) else Inl IndexError)"

definition np_put :: "vec \<Rightarrow> nat list \<Rightarrow> vec \<Rightarrow> py_error + vec" where
  \<comment> \<open>\<open>a[idx] = v\<close> for an array of non-negative indices; returns the updated array\<close>
  "np_put a idx v =
     (if length v \<noteq> length idx \<and> length v \<noteq> 1 then Inl ValueError
      else if \<exists>i \<in> set idx. length a \<le> i then Inl IndexError
      else if length v = length idx then Inr (fold (\<lambda>(i, x) b. b[i := x]) (zip idx v) a)
      else Inr (fold (\<lambda>i b. b[i := hd v]) idx a))"

definition np_get :: "'a list \<Rightarrow> nat \<Rightarrow> py_error + 'a" where
  "np_get a i = (if i < length a then Inr (a ! i) else Inl IndexError)"

section \<open>The preconditioned continuous optimizer\<close>

text \<open>
  The closure \<open>negative_acqf_with_grad\<close> writes into the scratch copy
  \<open>normalized_params\<close> and calls the evaluator once; its state is the scratch copy and the
  number of evaluator calls made so far.
\<close>

definition negative_acqf_with_grad ::
  "AcquisitionFunctionParams \<Rightarrow> nat list \<Rightarrow> vec \<Rightarrow> vec \<Rightarrow> vec \<times> nat
     \<Rightarrow> (py_error + real \<times> vec) \<times> vec \<times> nat"
where
  "negative_acqf_with_grad acqf_params continuous_indices lengthscale scaled_x st =
     (case st of (normalized_params, n) \<Rightarrow>
      case np_mul scaled_x lengthscale of
        Inl e \<Rightarrow> (Inl e, st)
      | Inr v \<Rightarrow>
      case np_put normalized_params continuous_indices v of
        Inl e \<Rightarrow> (Inl e, st)
      | Inr normalized_params' \<Rightarrow>
      let fval = acqf acqf_params normalized_params';
          grad = acqf_grad acqf_params normalized_params';
          st' = (normalized_params', Suc n)
      in case np_take grad continuous_indices of
        Inl e \<Rightarrow> (Inl e, st')
      | Inr g \<Rightarrow>
      case np_mul (map uminus g) lengthscale of
        Inl e \<Rightarrow> (Inl e, st')
      | Inr gl \<Rightarrow> (Inr (- fval, gl), st'))"

definition math_sqrt :: "real \<Rightarrow> py_error + real" where
  \<comment> \<open>\<open>math.sqrt\<close> raises ValueError on a negative argument\<close>
  "math_sqrt x = (if x < 0 then Inl ValueError else Inr (sqrt x))"

text \<open>
  The call \<open>so.fmin_l_bfgs_b(func=..., x0=..., bounds=..., pgtol=..., maxiter=200)\<close> with
  the evaluation of its arguments: the solver's answer or the exception, and the closure's
  state afterwards.
\<close>

definition call_fmin_l_bfgs_b ::
  "'r externals \<Rightarrow> AcquisitionFunctionParams \<Rightarrow> vec \<Rightarrow> nat list \<Rightarrow> vec \<Rightarrow> real
     \<Rightarrow> (py_error + vec \<times> real \<times> int) \<times> vec \<times> nat"
where
  "call_fmin_l_bfgs_b ext acqf_params normalized_params continuous_indices lengthscale tol =
     (case np_take normalized_params continuous_indices of
        Inl e \<Rightarrow> (Inl e, normalized_params, 0)
      | Inr xc \<Rightarrow>
      case np_div xc lengthscale of
        Inl e \<Rightarrow> (Inl e, normalized_params, 0)
      | Inr x0 \<Rightarrow>
      let bnds = map (\<lambda>s. (0, np_true_divide 1 s)) lengthscale
      in case math_sqrt tol of
        Inl e \<Rightarrow> (Inl e, normalized_params, 0)
      | Inr pgtol \<Rightarrow>
          run_solver (fmin_l_bfgs_b ext x0 bnds pgtol 200)
            (negative_acqf_with_grad acqf_params continuous_indices lengthscale)
            (normalized_params, 0))"

text \<open>
  The result is the returned triple (vector, value, updated flag) or the exception, paired
  with the number of evaluator calls made.
\<close>

definition gradient_ascent ::
  "'r externals \<Rightarrow> AcquisitionFunctionParams \<Rightarrow> vec \<Rightarrow> real \<Rightarrow> nat list \<Rightarrow> vec \<Rightarrow> real
     \<Rightarrow> (py_error + vec \<times> real \<times> bool) \<times> nat"
where
  "gradient_ascent ext acqf_params initial_params initial_fval continuous_indices lengthscale tol =
     (if length continuous_indices = 0 then (Inr (initial_params, initial_fval, False), 0)
      else
      case call_fmin_l_bfgs_b ext acqf_params initial_params continuous_indices lengthscale tol of
        (Inl e, normalized_params, n) \<Rightarrow> (Inl e, n)
      | (Inr (scaled_cont_x_opt, neg_fval_opt, nit), normalized_params, n) \<Rightarrow>
      if - neg_fval_opt > initial_fval \<and> nit > 0
      then (case np_mul scaled_cont_x_opt lengthscale of
              Inl e \<Rightarrow> (Inl e, n)
            | Inr v \<Rightarrow>
            case np_put normalized_params continuous_indices v of
              Inl e \<Rightarrow> (Inl e, n)
            | Inr normalized_params' \<Rightarrow> (Inr (normalized_params', - neg_fval_opt, True), n))
      else (Inr (initial_params, initial_fval, False), n))"

section \<open>The discrete coordinate optimizer\<close>

definition exhaustive_search ::
  "AcquisitionFunctionParams \<Rightarrow> vec \<Rightarrow> real \<Rightarrow> nat \<Rightarrow> vec
     \<Rightarrow> (py_error + vec \<times> real \<times> bool) \<times> nat"
where
  "exhaustive_search acqf_params initial_params initial_fval param_idx choices =
     (case np_get initial_params param_idx of
        Inl e \<Rightarrow> (Inl e, 0)
      | Inr cur \<Rightarrow>
      let choices_except_current = filter (\<lambda>c. c \<noteq> cur) choices;
          all_params = map (\<lambda>c. initial_params[param_idx := c]) choices_except_current;
          fvals = map (acqf acqf_params) all_params
      in case np_argmax fvals of
        Inl e \<Rightarrow> (Inl e, 1)
      | Inr best_idx \<Rightarrow>
      if fvals ! best_idx > initial_fval
      then (Inr (all_params ! best_idx, fvals ! best_idx, True), 1)
      else (Inr (initial_params, initial_fval, False), 1))"

definition find_nearest_index :: "vec \<Rightarrow> real \<Rightarrow> py_error + int" where
  "find_nearest_index grids x =
     (let i = np_clip (int (searchsorted grids x)) 1 (int (length grids) - 1)
      in case py_get grids (i - 1) of
        Inl e \<Rightarrow> Inl e
      | Inr g_lo \<Rightarrow>
      case py_get grids i of
        Inl e \<Rightarrow> Inl e
      | Inr g_hi \<Rightarrow> Inr (if \<bar>x - g_lo\<bar> < \<bar>x - g_hi\<bar> then i - 1 else i))"

text \<open>
  The state of the line search's closures: the scratch copy \<open>normalized_params\<close>, the
  dictionary \<open>negative_fval_cache\<close> and the number of evaluator calls made so far.
\<close>

record line_state =
  ls_params :: vec
  ls_cache :: "int \<rightharpoonup> real"
  ls_calls :: nat

definition negative_acqf_with_cache ::
  "AcquisitionFunctionParams \<Rightarrow> nat \<Rightarrow> vec \<Rightarrow> int \<Rightarrow> line_state \<Rightarrow> (py_error + real) \<times> line_state"
where
  "negative_acqf_with_cache acqf_params param_idx grids i st =
     (case ls_cache st i of
        Some cache_val \<Rightarrow> (Inr cache_val, st)
      | None \<Rightarrow>
      case py_get grids i of
        Inl e \<Rightarrow> (Inl e, st)
      | Inr g \<Rightarrow>
      if length (ls_params st) \<le> param_idx then (Inl IndexError, st)
      else
      let normalized_params = (ls_params st)[param_idx := g];
          negval = - acqf acqf_params normalized_params
      in (Inr negval,
          st\<lparr>ls_params := normalized_params,
             ls_cache := (ls_cache st)(i \<mapsto> negval),
             ls_calls := Suc (ls_calls st)\<rparr>))"

definition interpolated_negative_acqf ::
  "AcquisitionFunctionParams \<Rightarrow> nat \<Rightarrow> vec \<Rightarrow> real \<Rightarrow> line_state \<Rightarrow> (py_error + xreal) \<times> line_state"
where
  "interpolated_negative_acqf acqf_params param_idx grids x st =
     (case py_get grids 0 of
        Inl e \<Rightarrow> (Inl e, st)
      | Inr g_first \<Rightarrow>
      if x < g_first then (Inr PInf, st)
      else
      case py_get grids (- 1) of
        Inl e \<Rightarrow> (Inl e, st)
      | Inr g_last \<Rightarrow>
      if x > g_last then (Inr PInf, st)
      else
      let right = np_clip (int (searchsorted grids x)) 1 (int (length grids) - 1);
          left = right - 1
      in case negative_acqf_with_cache acqf_params param_idx grids left st of
        (Inl e, st1) \<Rightarrow> (Inl e, st1)
      | (Inr neg_acqf_left, st1) \<Rightarrow>
      case negative_acqf_with_cache acqf_params param_idx grids right st1 of
        (Inl e, st2) \<Rightarrow> (Inl e, st2)
      | (Inr neg_acqf_right, st2) \<Rightarrow>
      case py_get grids right of
        Inl e \<Rightarrow> (Inl e, st2)
      | Inr g_right \<Rightarrow>
      case py_get grids left of
        Inl e \<Rightarrow> (Inl e, st2)
      | Inr g_left \<Rightarrow>
      let w_left = np_true_divide (g_right - x) (g_right - g_left);
          w_right = xsub (Fin 1) w_left
      in (Inr (xadd (xmul w_left (Fin neg_acqf_left)) (xmul w_right (Fin neg_acqf_right))), st2))"

definition EPS :: real where
  "EPS = 1 / 10 ^ 12"

definition discrete_line_search ::
  "'r externals \<Rightarrow> AcquisitionFunctionParams \<Rightarrow> vec \<Rightarrow> real \<Rightarrow> nat \<Rightarrow> vec \<Rightarrow> xreal
     \<Rightarrow> (py_error + vec \<times> real \<times> bool) \<times> nat"
where
  "discrete_line_search ext acqf_params initial_params initial_fval param_idx grids xtol =
     (if length grids = 1 then (Inr (initial_params, initial_fval, False), 0)
      else
      case np_get initial_params param_idx of
        Inl e \<Rightarrow> (Inl e, 0)
      | Inr cur \<Rightarrow>
      case find_nearest_index grids cur of
        Inl e \<Rightarrow> (Inl e, 0)
      | Inr current_choice_i \<Rightarrow>
      case py_get grids current_choice_i of
        Inl e \<Rightarrow> (Inl e, 0)
      | Inr g_cur \<Rightarrow>
      if cur \<noteq> g_cur then (Inl (AssertionError []), 0)
      else
      case py_get grids 0 of
        Inl e \<Rightarrow> (Inl e, 0)
      | Inr g_first \<Rightarrow>
      case py_get grids (- 1) of
        Inl e \<Rightarrow> (Inl e, 0)
      | Inr g_last \<Rightarrow>
      let st0 = \<lparr>ls_params = initial_params,
                 ls_cache = [current_choice_i \<mapsto> - initial_fval],
                 ls_calls = 0\<rparr>
      in case run_solver (minimize_scalar_brent ext (g_first - EPS, g_cur, g_last + EPS) xtol)
                (interpolated_negative_acqf acqf_params param_idx grids) st0 of
        (Inl e, st1) \<Rightarrow> (Inl e, ls_calls st1)
      | (Inr res_x, st1) \<Rightarrow>
      case find_nearest_index grids res_x of
        Inl e \<Rightarrow> (Inl e, ls_calls st1)
      | Inr opt_idx \<Rightarrow>
      case negative_acqf_with_cache acqf_params param_idx grids opt_idx st1 of
        (Inl e, st2) \<Rightarrow> (Inl e, ls_calls st2)
      | (Inr neg_opt, st2) \<Rightarrow>
      let fval_opt = - neg_opt
      in if opt_idx \<noteq> current_choice_i \<and> fval_opt > initial_fval
         then (case py_get grids opt_idx of
                 Inl e \<Rightarrow> (Inl e, ls_calls st2)
               | Inr g_opt \<Rightarrow>
                   (Inr ((ls_params st2)[param_idx := g_opt], fval_opt, True), ls_calls st2))
         else (Inr (initial_params, initial_fval, False), ls_calls st2))"

definition MAX_INT_EXHAUSTIVE_SEARCH_PARAMS :: nat where
  "MAX_INT_EXHAUSTIVE_SEARCH_PARAMS = 16"

definition local_search_discrete ::
  "'r externals \<Rightarrow> AcquisitionFunctionParams \<Rightarrow> vec \<Rightarrow> real \<Rightarrow> nat \<Rightarrow> vec \<Rightarrow> xreal
     \<Rightarrow> (py_error + vec \<times> real \<times> bool) \<times> nat"
where
  "local_search_discrete ext acqf_params initial_params initial_fval param_idx choices xtol =
     (case np_get (scale_types (search_space acqf_params)) param_idx of
        Inl e \<Rightarrow> (Inl e, 0)
      | Inr scale_type \<Rightarrow>
      if scale_type = CATEGORICAL \<or> length choices \<le> MAX_INT_EXHAUSTIVE_SEARCH_PARAMS
      then exhaustive_search acqf_params initial_params initial_fval param_idx choices
      else discrete_line_search ext acqf_params initial_params initial_fval param_idx choices xtol)"

section \<open>The mixed coordinate-descent driver\<close>

definition np_where :: "(real \<Rightarrow> bool) \<Rightarrow> vec \<Rightarrow> nat list" where
  \<comment> \<open>\<open>np.where(cond)[0]\<close>: the indices where the condition holds, ascending\<close>
  "np_where P xs = filter (\<lambda>i. P (xs ! i)) [0..<length xs]"

definition np_arange :: "real \<Rightarrow> real \<Rightarrow> real \<Rightarrow> vec" where
  \<comment> \<open>\<open>np.arange(start, stop, step)\<close> for a positive step\<close>
  "np_arange start stop step =
     map (\<lambda>k. start + real k * step) [0..<nat \<lceil>(stop - start) / step\<rceil>]"

definition np_diff :: "vec \<Rightarrow> vec" where
  "np_diff xs = map2 (\<lambda>a b. b - a) xs (tl xs)"

definition paramwise_xtol :: "vec \<Rightarrow> xreal" where
  \<comment> \<open>\<open>np.min(np.diff(choices), initial=np.inf) / 4\<close>\<close>
  "paramwise_xtol choices =
     xquarter (if np_diff choices = [] then PInf else Fin (Min (set (np_diff choices))))"

definition choices_of_discrete_param ::
  "'r externals \<Rightarrow> SearchSpace \<Rightarrow> nat \<Rightarrow> py_error + vec"
where
  "choices_of_discrete_param ext sp i =
     (case np_get (scale_types sp) i of
        Inl e \<Rightarrow> Inl e
      | Inr t \<Rightarrow>
      case np_get (bounds sp) i of
        Inl e \<Rightarrow> Inl e
      | Inr (lo, hi) \<Rightarrow>
      if t = CATEGORICAL then Inr (np_arange 0 hi 1)
      else
      case np_get (steps sp) i of
        Inl e \<Rightarrow> Inl e
      | Inr step \<Rightarrow>
          Inr (normalize_one_param ext (np_arange lo (hi + 0.5 * step) step) t (lo, hi) step))"

fun choices_of_discrete_params ::
  "'r externals \<Rightarrow> SearchSpace \<Rightarrow> nat list \<Rightarrow> py_error + vec list"
where
  "choices_of_discrete_params ext sp [] = Inr []"
| "choices_of_discrete_params ext sp (i # rest) =
     (case choices_of_discrete_param ext sp i of
        Inl e \<Rightarrow> Inl e
      | Inr c \<Rightarrow>
      case choices_of_discrete_params ext sp rest of
        Inl e \<Rightarrow> Inl e
      | Inr cs \<Rightarrow> Inr (c # cs))"

definition CONTINUOUS :: int where
  "CONTINUOUS = - 1"

text \<open>
  What a run of the driver does besides returning: the number of calls of the evaluator, the
  coordinate groups handed to an optimizer (\<open>CONTINUOUS\<close> or a discrete index, in call
  order) and the warnings logged.
\<close>

record effects =
  n_evals :: nat
  optimized :: "int list"
  warnings :: "string list"

definition no_effects :: effects where
  "no_effects = \<lparr>n_evals = 0, optimized = [], warnings = []\<rparr>"

definition evals :: "nat \<Rightarrow> effects" where
  "evals n = \<lparr>n_evals = n, optimized = [], warnings = []\<rparr>"

definition optimizer_call :: "int \<Rightarrow> nat \<Rightarrow> effects" where
  \<comment> \<open>one call of a group's optimizer, which called the evaluator \<open>n\<close> times\<close>
  "optimizer_call g n = \<lparr>n_evals = n, optimized = [g], warnings = []\<rparr>"

definition and_then :: "effects \<Rightarrow> effects \<Rightarrow> effects" where
  "and_then a b =
     \<lparr>n_evals = n_evals a + n_evals b,
      optimized = optimized a @ optimized b,
      warnings = warnings a @ warnings b\<rparr>"

text \<open>
  The driver's variables: \<open>best_normalized_params\<close>, \<open>best_fval\<close> and
  \<open>last_changed_param\<close> (\<open>None\<close>, \<open>CONTINUOUS\<close> or a discrete index).
\<close>

type_synonym search_state = "vec \<times> real \<times> int option"

text \<open>A loop body either executes a \<open>return\<close> or falls through with the updated variables.\<close>

datatype flow = Returned "vec \<times> real" | Running search_state

text \<open>The inner \<open>for\<close> loop over the discrete indices, their choices and tolerances.\<close>

fun discrete_sweep ::
  "'r externals \<Rightarrow> AcquisitionFunctionParams \<Rightarrow> (nat \<times> vec \<times> xreal) list \<Rightarrow> search_state
     \<Rightarrow> (py_error + flow) \<times> effects"
where
  "discrete_sweep ext acqf_params [] st = (Inr (Running st), no_effects)"
| "discrete_sweep ext acqf_params ((i, choices, xtol) # rest) (best_params, best_fval, last_changed) =
     (if last_changed = Some (int i) then (Inr (Returned (best_params, best_fval)), no_effects)
      else
      case local_search_discrete ext acqf_params best_params best_fval i choices xtol of
        (Inl e, n) \<Rightarrow> (Inl e, optimizer_call (int i) n)
      | (Inr (best_params', best_fval', updated), n) \<Rightarrow>
      case discrete_sweep ext acqf_params rest
             (best_params', best_fval', if updated then Some (int i) else last_changed) of
        (r, eff) \<Rightarrow> (r, and_then (optimizer_call (int i) n) eff))"

text \<open>One pass of the outer \<open>for\<close> loop's body.\<close>

definition sweep ::
  "'r externals \<Rightarrow> AcquisitionFunctionParams \<Rightarrow> nat list \<Rightarrow> vec \<Rightarrow> real
     \<Rightarrow> (nat \<times> vec \<times> xreal) list \<Rightarrow> search_state \<Rightarrow> (py_error + flow) \<times> effects"
where
  "sweep ext acqf_params continuous_indices lengthscale tol discrete st =
     (case st of (best_params, best_fval, last_changed) \<Rightarrow>
      if last_changed = Some CONTINUOUS then (Inr (Returned (best_params, best_fval)), no_effects)
      else
      case gradient_ascent ext acqf_params best_params best_fval continuous_indices
             lengthscale tol of
        (Inl e, n) \<Rightarrow> (Inl e, optimizer_call CONTINUOUS n)
      | (Inr (best_params', best_fval', updated), n) \<Rightarrow>
      case discrete_sweep ext acqf_params discrete
             (best_params', best_fval', if updated then Some CONTINUOUS else last_changed) of
        (Inl e, eff) \<Rightarrow> (Inl e, and_then (optimizer_call CONTINUOUS n) eff)
      | (Inr (Returned r), eff) \<Rightarrow> (Inr (Returned r), and_then (optimizer_call CONTINUOUS n) eff)
      | (Inr (Running (best_params'', best_fval'', last_changed'')), eff) \<Rightarrow>
          (Inr (if last_changed'' = None then Returned (best_params'', best_fval'')
                else Running (best_params'', best_fval'', last_changed'')),
           and_then (optimizer_call CONTINUOUS n) eff))"

definition not_converged :: string where
  "not_converged = ''local_search_mixed: Local search did not converge.''"

text \<open>The outer loop, with the number of passes that remain.\<close>

fun sweeps ::
  "'r externals \<Rightarrow> AcquisitionFunctionParams \<Rightarrow> nat list \<Rightarrow> vec \<Rightarrow> real
     \<Rightarrow> (nat \<times> vec \<times> xreal) list \<Rightarrow> nat \<Rightarrow> search_state
     \<Rightarrow> (py_error + vec \<times> real) \<times> effects"
where
  "sweeps ext acqf_params continuous_indices lengthscale tol discrete 0
       (best_params, best_fval, last_changed) =
     (Inr (best_params, best_fval), no_effects\<lparr>warnings := [not_converged]\<rparr>)"
| "sweeps ext acqf_params continuous_indices lengthscale tol discrete (Suc k) st =
     (case sweep ext acqf_params continuous_indices lengthscale tol discrete st of
        (Inl e, eff) \<Rightarrow> (Inl e, eff)
      | (Inr (Returned r), eff) \<Rightarrow> (Inr r, eff)
      | (Inr (Running st'), eff) \<Rightarrow>
      case sweeps ext acqf_params continuous_indices lengthscale tol discrete k st' of
        (r, eff') \<Rightarrow> (r, and_then eff eff'))"

definition local_search_mixed ::
  "'r externals \<Rightarrow> AcquisitionFunctionParams \<Rightarrow> vec \<Rightarrow> real \<Rightarrow> int
     \<Rightarrow> (py_error + vec \<times> real) \<times> effects"
where
  "local_search_mixed ext acqf_params initial_normalized_params tol max_iter =
     (let sp = search_space acqf_params;
          continuous_indices = np_where (\<lambda>s. s = 0) (steps sp)
      in case np_take (inverse_squared_lengthscales acqf_params) continuous_indices of
        Inl e \<Rightarrow> (Inl e, no_effects)
      | Inr inv_sq \<Rightarrow>
      let lengthscale = map (\<lambda>v. 1 / sqrt v) inv_sq;
          discrete_indices = np_where (\<lambda>s. s > 0) (steps sp)
      in case choices_of_discrete_params ext sp discrete_indices of
        Inl e \<Rightarrow> (Inl e, no_effects)
      | Inr choices \<Rightarrow>
      let noncontinuous_paramwise_xtol = map paramwise_xtol choices;
          best_fval = acqf acqf_params initial_normalized_params
      in case sweeps ext acqf_params continuous_indices lengthscale tol
                (zip discrete_indices (zip choices noncontinuous_paramwise_xtol))
                (nat max_iter) (initial_normalized_params, best_fval, None) of
        (r, eff) \<Rightarrow> (r, and_then (evals 1) eff))"

section \<open>The multi-start driver\<close>

definition softmax_probs :: "real list \<Rightarrow> nat \<Rightarrow> xreal list" where
  \<comment> \<open>\<open>probs = np.exp(f_vals - f_vals[max_i]); probs[max_i] = 0.0; probs /= probs.sum()\<close>\<close>
  "softmax_probs f_vals max_i =
     (let probs = (map (\<lambda>v. exp (v - f_vals ! max_i)) f_vals)[max_i := 0]
      in map (\<lambda>w. np_true_divide w (sum_list probs)) probs)"

text \<open>The loop over the start points, from the incumbent \<open>(best_x, best_f)\<close>.\<close>

fun multi_start ::
  "'r externals \<Rightarrow> AcquisitionFunctionParams \<Rightarrow> real \<Rightarrow> vec list \<Rightarrow> vec \<times> real
     \<Rightarrow> (py_error + vec \<times> real) \<times> effects"
where
  "multi_start ext acqf_params tol [] best = (Inr best, no_effects)"
| "multi_start ext acqf_params tol (x_guess # rest) (best_x, best_f) =
     (case local_search_mixed ext acqf_params x_guess tol 100 of
        (Inl e, eff) \<Rightarrow> (Inl e, eff)
      | (Inr (x, f), eff) \<Rightarrow>
      case multi_start ext acqf_params tol rest (if f > best_f then (x, f) else (best_x, best_f)) of
        (r, eff') \<Rightarrow> (r, and_then eff eff'))"

definition too_many_initial_xs :: string where
  "too_many_initial_xs =
     ''We must choose at least 1 best sampled point + given_initial_xs as start points.''"

definition optimize_acqf_mixed ::
  "'r externals \<Rightarrow> AcquisitionFunctionParams \<Rightarrow> vec list option \<Rightarrow> int \<Rightarrow> int \<Rightarrow> real
     \<Rightarrow> 'r option \<Rightarrow> (py_error + vec \<times> real) \<times> effects"
where
  "optimize_acqf_mixed ext acqf_params given_initial_xs n_additional_samples n_local_search tol rng =
     (let rng0 = (case rng of Some r \<Rightarrow> r | None \<Rightarrow> default_rng ext);
          dim = length (scale_types (search_space acqf_params));
          given = (case given_initial_xs of Some xs \<Rightarrow> xs | None \<Rightarrow> [])
      in if \<not> int (length given) \<le> n_local_search - 1
         then (Inl (AssertionError too_many_initial_xs), no_effects)
      else
      case sample_normalized_params ext n_additional_samples (search_space acqf_params) rng0 of
        (sampled_xs, rng1) \<Rightarrow>
      let f_vals = map (acqf acqf_params) sampled_xs
      in case np_argmax f_vals of
        Inl e \<Rightarrow> (Inl e, evals 1)
      | Inr max_i \<Rightarrow>
      let probs = softmax_probs f_vals max_i
      in case rng_choice ext (length sampled_xs) (n_local_search - int (length given) - 1)
                probs rng1 of
        (Inl e, rng2) \<Rightarrow> (Inl e, evals 1)
      | (Inr remaining_idxs, rng2) \<Rightarrow>
      let best_x = sampled_xs ! max_i;
          best_f = f_vals ! max_i
      in case np_take sampled_xs remaining_idxs of
        Inl e \<Rightarrow> (Inl e, evals 1)
      | Inr drawn \<Rightarrow>
      if (given_initial_xs = None \<and> dim \<noteq> length best_x)
         \<or> (\<exists>g \<in> set (drawn @ given). length g \<noteq> length best_x)
      then (Inl ValueError, evals 1)
      else
      case multi_start ext acqf_params tol (best_x # drawn @ given) (best_x, best_f) of
        (r, eff) \<Rightarrow> (r, and_then (evals 1) eff))"

section \<open>Notions used to state the properties\<close>

definition is_distribution :: "xreal list \<Rightarrow> bool" where
  \<comment> \<open>a valid probability vector: finite non-negative entries that sum to one\<close>
  "is_distribution ps =
     (list_all (\<lambda>w. case w of Fin r \<Rightarrow> 0 \<le> r | _ \<Rightarrow> False) ps
      \<and> sum_list (map (\<lambda>w. case w of Fin r \<Rightarrow> r | _ \<Rightarrow> 0) ps) = 1)"

fun flow_value :: "flow \<Rightarrow> real" where
  \<comment> \<open>the acquisition value a loop body leaves or returns\<close>
  "flow_value (Returned (p, f)) = f"
| "flow_value (Running (p, f, l)) = f"

subsection \<open>The driver as the specification words it\<close>

text \<open>
  The specification describes the driver as a state machine over coordinate groups: the
  continuous group and one group per discrete index. Its state is the group that last
  produced a strict improvement: none yet, the continuous group, or a discrete index.
\<close>

datatype group = ContinuousGroup | DiscreteGroup nat vec xreal

datatype improver = NoneYet | TheContinuousGroup | DiscreteIndex nat

fun improver_of :: "group \<Rightarrow> improver" where
  "improver_of ContinuousGroup = TheContinuousGroup"
| "improver_of (DiscreteGroup i choices xtol) = DiscreteIndex i"

fun group_id :: "group \<Rightarrow> int" where
  "group_id ContinuousGroup = CONTINUOUS"
| "group_id (DiscreteGroup i choices xtol) = int i"

fun discrete_group :: "nat \<times> vec \<times> xreal \<Rightarrow> group" where
  "discrete_group (i, choices, xtol) = DiscreteGroup i choices xtol"

text \<open>Optimizing a group is the continuous optimizer (4.2) or the discrete one (4.3).\<close>

fun optimize_group ::
  "'r externals \<Rightarrow> AcquisitionFunctionParams \<Rightarrow> nat list \<Rightarrow> vec \<Rightarrow> real \<Rightarrow> group
     \<Rightarrow> vec \<Rightarrow> real \<Rightarrow> (py_error + vec \<times> real \<times> bool) \<times> nat"
where
  "optimize_group ext acqf_params ci ls tol ContinuousGroup p f =
     gradient_ascent ext acqf_params p f ci ls tol"
| "optimize_group ext acqf_params ci ls tol (DiscreteGroup i choices xtol) p f =
     local_search_discrete ext acqf_params p f i choices xtol"

datatype spec_flow = Terminated "vec \<times> real" | Swept "vec \<times> real \<times> improver"

text \<open>
  One outer iteration over the groups that remain in it: before optimizing a group, if it
  is the group that produced the most recent improvement, terminate and return the current
  best; whenever a group improves, record it as last changed.
\<close>

fun spec_cycle ::
  "'r externals \<Rightarrow> AcquisitionFunctionParams \<Rightarrow> nat list \<Rightarrow> vec \<Rightarrow> real \<Rightarrow> group list
     \<Rightarrow> vec \<times> real \<times> improver \<Rightarrow> (py_error + spec_flow) \<times> effects"
where
  "spec_cycle ext acqf_params ci ls tol [] st = (Inr (Swept st), no_effects)"
| "spec_cycle ext acqf_params ci ls tol (g # gs) (p, f, m) =
     (if m = improver_of g then (Inr (Terminated (p, f)), no_effects)
      else
      case optimize_group ext acqf_params ci ls tol g p f of
        (Inl e, n) \<Rightarrow> (Inl e, optimizer_call (group_id g) n)
      | (Inr (p', f', improved), n) \<Rightarrow>
      case spec_cycle ext acqf_params ci ls tol gs (p', f', if improved then improver_of g else m) of
        (r, eff) \<Rightarrow> (r, and_then (optimizer_call (group_id g) n) eff))"

text \<open>
  The outer iterations, with the number that the cap still allows: if after a sweep no
  group has ever improved, terminate; on reaching the cap, warn and return the current best.
\<close>

fun spec_driver ::
  "'r externals \<Rightarrow> AcquisitionFunctionParams \<Rightarrow> nat list \<Rightarrow> vec \<Rightarrow> real \<Rightarrow> group list
     \<Rightarrow> nat \<Rightarrow> vec \<times> real \<times> improver \<Rightarrow> (py_error + vec \<times> real) \<times> effects"
where
  "spec_driver ext acqf_params ci ls tol gs 0 (p, f, m) =
     (Inr (p, f), no_effects\<lparr>warnings := [not_converged]\<rparr>)"
| "spec_driver ext acqf_params ci ls tol gs (Suc k) st =
     (case spec_cycle ext acqf_params ci ls tol gs st of
        (Inl e, eff) \<Rightarrow> (Inl e, eff)
      | (Inr (Terminated r), eff) \<Rightarrow> (Inr r, eff)
      | (Inr (Swept (p, f, m)), eff) \<Rightarrow>
      if m = NoneYet then (Inr (p, f), eff)
      else
      case spec_driver ext acqf_params ci ls tol gs k (p, f, m) of
        (r, eff') \<Rightarrow> (r, and_then eff eff'))"

text \<open>How the code stores the machine's state in \<open>last_changed_param\<close>.\<close>

fun code_of :: "improver \<Rightarrow> int option" where
  "code_of NoneYet = None"
| "code_of TheContinuousGroup = Some CONTINUOUS"
| "code_of (DiscreteIndex i) = Some (int i)"

fun code_flow :: "spec_flow \<Rightarrow> flow" where
  "code_flow (Terminated r) = Returned r"
| "code_flow (Swept (p, f, m)) = Running (p, f, code_of m)"

subsection \<open>Groups, and optimizers that settle\<close>

text \<open>
  The parameter classifier (lines 194 to 228 of the driver): the continuous indices, their
  lengthscales and the discrete indices with their choices and tolerances.
\<close>

definition classify ::
  "'r externals \<Rightarrow> AcquisitionFunctionParams
     \<Rightarrow> py_error + nat list \<times> vec \<times> (nat \<times> vec \<times> xreal) list"
where
  "classify ext acqf_params =
     (let sp = search_space acqf_params;
          continuous_indices = np_where (\<lambda>s. s = 0) (steps sp)
      in case np_take (inverse_squared_lengthscales acqf_params) continuous_indices of
        Inl e \<Rightarrow> Inl e
      | Inr inv_sq \<Rightarrow>
      let discrete_indices = np_where (\<lambda>s. s > 0) (steps sp)
      in case choices_of_discrete_params ext sp discrete_indices of
        Inl e \<Rightarrow> Inl e
      | Inr choices \<Rightarrow>
          Inr (continuous_indices, map (\<lambda>v. 1 / sqrt v) inv_sq,
               zip discrete_indices (zip choices (map paramwise_xtol choices))))"


definition group_stable ::
  "'r externals \<Rightarrow> AcquisitionFunctionParams \<Rightarrow> nat list \<Rightarrow> vec \<Rightarrow> real \<Rightarrow> group
     \<Rightarrow> vec \<Rightarrow> real \<Rightarrow> bool"
where
  \<comment> \<open>optimizing the group at this point and value changes nothing\<close>
  "group_stable ext acqf_params ci ls tol g p f =
     (fst (optimize_group ext acqf_params ci ls tol g p f) = Inr (p, f, False))"

definition repeatable ::
  "'r externals \<Rightarrow> AcquisitionFunctionParams \<Rightarrow> nat list \<Rightarrow> vec \<Rightarrow> real \<Rightarrow> group \<Rightarrow> bool"
where
  \<comment> \<open>an improvement reports the true value of its point, and optimizing again from it
      changes nothing\<close>
  "repeatable ext acqf_params ci ls tol g =
     (\<forall>p p' f' n.
        optimize_group ext acqf_params ci ls tol g p (acqf acqf_params p) = (Inr (p', f', True), n)
        \<longrightarrow> f' = acqf acqf_params p' \<and> group_stable ext acqf_params ci ls tol g p' f')"

definition uses_exhaustive :: "AcquisitionFunctionParams \<Rightarrow> nat \<Rightarrow> vec \<Rightarrow> bool" where
  \<comment> \<open>the dispatch rule of \<open>_local_search_discrete\<close>\<close>
  "uses_exhaustive acqf_params i choices =
     (case np_get (scale_types (search_space acqf_params)) i of
        Inl e \<Rightarrow> False
      | Inr t \<Rightarrow> t = CATEGORICAL \<or> length choices \<le> MAX_INT_EXHAUSTIVE_SEARCH_PARAMS)"

text \<open>
  A group settles when it is searched exhaustively over at least two different choices, or
  when its solver-based optimizer is repeatable.
\<close>

fun settles ::
  "'r externals \<Rightarrow> AcquisitionFunctionParams \<Rightarrow> nat list \<Rightarrow> vec \<Rightarrow> real \<Rightarrow> group \<Rightarrow> bool"
where
  "settles ext acqf_params ci ls tol ContinuousGroup =
     repeatable ext acqf_params ci ls tol ContinuousGroup"
| "settles ext acqf_params ci ls tol (DiscreteGroup i choices xtol) =
     (if uses_exhaustive acqf_params i choices
      then (\<exists>a \<in> set choices. \<exists>b \<in> set choices. a \<noteq> b)
      else repeatable ext acqf_params ci ls tol (DiscreteGroup i choices xtol))"

text \<open>
  The invariant of the convergence test, between the groups already handled in the current
  sweep and those still to come: the value is the true value of the point, and every group
  handled since the last improvement, the improving group included, is stable there.
\<close>

definition settled_since ::
  "'r externals \<Rightarrow> AcquisitionFunctionParams \<Rightarrow> nat list \<Rightarrow> vec \<Rightarrow> real
     \<Rightarrow> group list \<Rightarrow> group list \<Rightarrow> vec \<times> real \<times> improver \<Rightarrow> bool"
where
  "settled_since ext acqf_params ci ls tol handled todo st =
     (case st of (p, f, m) \<Rightarrow>
        f = acqf acqf_params p \<and>
        (if m = NoneYet then \<forall>g \<in> set handled. group_stable ext acqf_params ci ls tol g p f
         else (\<exists>g d1 d2. handled = d1 @ g # d2 \<and> improver_of g = m
                 \<and> group_stable ext acqf_params ci ls tol g p f
                 \<and> (\<forall>h \<in> set d2. group_stable ext acqf_params ci ls tol h p f))
            \<or> (\<exists>g t1 t2. todo = t1 @ g # t2 \<and> improver_of g = m
                 \<and> group_stable ext acqf_params ci ls tol g p f
                 \<and> (\<forall>h \<in> set t2. group_stable ext acqf_params ci ls tol h p f)
                 \<and> (\<forall>h \<in> set handled. group_stable ext acqf_params ci ls tol h p f))))"

subsection \<open>Concrete inputs\<close>

text \<open>
  A stand-in for the external collaborators: an L-BFGS-B that evaluates the objective at the
  scaled point \<open>[1/2]\<close> and reports it after one iteration, a Brent minimizer that returns
  the middle of its bracket, the identity normalization, a sampler with a fixed pool of two
  points and a \<open>choice\<close> that draws nothing.
\<close>

definition ex_ext :: "unit externals" where
  "ex_ext =
     \<lparr>fmin_l_bfgs_b = (\<lambda>x0 bnds pgtol maxiter. Ask [1 / 2] (\<lambda>(v, g). Stop ([1 / 2], v, 1))),
      minimize_scalar_brent = (\<lambda>(a, b, c) xtol. Stop b),
      normalize_one_param = (\<lambda>v t b s. v),
      sample_normalized_params = (\<lambda>n sp r. ([[0], [1]], r)),
      rng_choice = (\<lambda>n size p r. (Inr [], r)),
      default_rng = ()\<rparr>"

definition ex_space ::
  "ScaleType list \<Rightarrow> (real \<times> real) list \<Rightarrow> real list \<Rightarrow> (vec \<Rightarrow> real) \<Rightarrow> AcquisitionFunctionParams"
where
  "ex_space ts bs ss f =
     \<lparr>search_space = \<lparr>scale_types = ts, bounds = bs, steps = ss\<rparr>,
      inverse_squared_lengthscales = map (\<lambda>_. 1) ss,
      acqf = f,
      acqf_grad = (\<lambda>x. map (\<lambda>_. 1) x)\<rparr>"

definition ex_ridge :: "vec \<Rightarrow> real" where
  \<comment> \<open>an acquisition function on two categorical coordinates that rises along a staircase\<close>
  "ex_ridge x = (if x = [1, 0] then 1 else if x = [1, 1] then 2 else if x = [2, 1] then 3 else 0)"

text \<open>
  An L-BFGS-B that stops after one step halfway from its start point to the upper bound 1,
  reporting the true objective value there.
\<close>

definition ex_halfway :: "unit externals" where
  "ex_halfway = ex_ext\<lparr>fmin_l_bfgs_b :=
     (\<lambda>x0 bnds pgtol maxiter.
        case x0 of
          [Fin a] \<Rightarrow> Ask [(a + 1) / 2] (\<lambda>(v, g). Stop ([(a + 1) / 2], v, 1))
        | _ \<Rightarrow> Stop ([], 0, 0))\<rparr>"

section \<open>Properties\<close>

subsection \<open>Binary search and the nearest grid index\<close>

lemma bisect_left_range:
  "lo \<le> hi \<Longrightarrow> lo \<le> bisect_left a key lo hi \<and> bisect_left a key lo hi \<le> hi"
proof (induction a key lo hi rule: bisect_left.induct)
  case (1 a key lo hi)
  show ?case
  proof (cases "lo < hi")
    case False
    then have "bisect_left a key lo hi = lo" by (subst bisect_left.simps) simp
    with "1.prems" show ?thesis by simp
  next
    case True
    define mid where "mid = lo + (hi - lo) div 2"
    have m: "lo \<le> mid" "mid < hi" using True by (simp_all add: mid_def) 
    show ?thesis
    proof (cases "a ! mid < key")
      case lt: True
      from "1.IH"(1) [OF True mid_def lt] m
      have "mid + 1 \<le> bisect_left a key (mid + 1) hi \<and> bisect_left a key (mid + 1) hi \<le> hi"
        by simp
      with True lt m show ?thesis
        by (simp add: bisect_left.simps [of a key lo hi] mid_def [symmetric] Let_def)
    next
      case ge: False
      from "1.IH"(2) [OF True mid_def ge] m
      have "lo \<le> bisect_left a key lo mid \<and> bisect_left a key lo mid \<le> mid"
        by simp
      with True ge m show ?thesis
        by (simp add: bisect_left.simps [of a key lo hi] mid_def [symmetric] Let_def)
    qed
  qed
qed

lemma bisect_left_split:
  "lo \<le> hi \<Longrightarrow> hi \<le> length a \<Longrightarrow> sorted a \<Longrightarrow>
   \<forall>j < lo. a ! j < key \<Longrightarrow> \<forall>j. hi \<le> j \<and> j < length a \<longrightarrow> key \<le> a ! j \<Longrightarrow>
   (\<forall>j < bisect_left a key lo hi. a ! j < key) \<and>
   (\<forall>j. bisect_left a key lo hi \<le> j \<and> j < length a \<longrightarrow> key \<le> a ! j)"
proof (induction a key lo hi rule: bisect_left.induct)
  case (1 a key lo hi)
  show ?case
  proof (cases "lo < hi")
    case False
    with "1.prems" have "lo = hi" by simp
    with "1.prems" show ?thesis by (simp add: bisect_left.simps [of a key hi hi])
  next
    case True
    define mid where "mid = lo + (hi - lo) div 2"
    have m: "lo \<le> mid" "mid < hi" using True by (simp_all add: mid_def) 
    show ?thesis
    proof (cases "a ! mid < key")
      case lt: True
      have below: "\<forall>j < mid + 1. a ! j < key"
      proof (intro allI impI)
        fix j assume "j < mid + 1"
        then have "j \<le> mid" by simp
        moreover have "mid < length a" using m "1.prems"(2) by simp
        ultimately have "a ! j \<le> a ! mid" using "1.prems"(3) by (simp add: sorted_nth_mono)
        with lt show "a ! j < key" by simp
      qed
      from "1.IH"(1) [OF True mid_def lt _ "1.prems"(2,3) below "1.prems"(5)] m
      have "(\<forall>j < bisect_left a key (mid + 1) hi. a ! j < key) \<and>
            (\<forall>j. bisect_left a key (mid + 1) hi \<le> j \<and> j < length a \<longrightarrow> key \<le> a ! j)"
        by simp
      with True lt show ?thesis
        by (simp add: bisect_left.simps [of a key lo hi] mid_def [symmetric] Let_def)
    next
      case ge: False
      have above: "\<forall>j. mid \<le> j \<and> j < length a \<longrightarrow> key \<le> a ! j"
      proof (intro allI impI)
        fix j assume "mid \<le> j \<and> j < length a"
        then have "a ! mid \<le> a ! j" using "1.prems"(3) by (simp add: sorted_nth_mono)
        with ge show "key \<le> a ! j" by simp
      qed
      from "1.IH"(2) [OF True mid_def ge m(1) _ "1.prems"(3,4) above] m "1.prems"(2)
      have "(\<forall>j < bisect_left a key lo mid. a ! j < key) \<and>
            (\<forall>j. bisect_left a key lo mid \<le> j \<and> j < length a \<longrightarrow> key \<le> a ! j)"
        by simp
      with True ge show ?thesis
        by (simp add: bisect_left.simps [of a key lo hi] mid_def [symmetric] Let_def)
    qed
  qed
qed

lemma searchsorted_le_length: "searchsorted a v \<le> length a"
  using bisect_left_range [of 0 "length a" a v] by (simp add: searchsorted_def)

lemma searchsorted_split:
  assumes "sorted a"
  shows "(\<forall>j < searchsorted a v. a ! j < v) \<and>
         (\<forall>j. searchsorted a v \<le> j \<and> j < length a \<longrightarrow> v \<le> a ! j)"
  using bisect_left_split [of 0 "length a" a v] assms by (simp add: searchsorted_def)

lemma searchsorted_between:
  assumes "sorted a" "Suc k < length a" "a ! k < v" "v \<le> a ! Suc k"
  shows "searchsorted a v = Suc k"
proof -
  let ?r = "searchsorted a v"
  from searchsorted_split [OF assms(1), of v]
  have lo: "\<forall>j < ?r. a ! j < v" and hi: "\<forall>j. ?r \<le> j \<and> j < length a \<longrightarrow> v \<le> a ! j"
    by blast+
  have "\<not> ?r \<le> k"
  proof
    assume "?r \<le> k"
    with hi assms(2) have "v \<le> a ! k" by simp
    with assms(3) show False by simp
  qed
  moreover have "\<not> Suc k < ?r"
  proof
    assume "Suc k < ?r"
    with lo have "a ! Suc k < v" by simp
    with assms(4) show False by simp
  qed
  ultimately show ?thesis by simp
qed

lemma find_nearest_index_in_range:
  assumes "2 \<le> length grids"
  shows "\<exists>k. find_nearest_index grids x = Inr k \<and> 0 \<le> k \<and> k < int (length grids)"
proof -
  define i where "i = np_clip (int (searchsorted grids x)) 1 (int (length grids) - 1)"
  have r: "1 \<le> i" "i < int (length grids)"
    using assms by (simp_all add: i_def np_clip_def)
  have g1: "py_get grids (i - 1) = Inr (grids ! nat (i - 1))"
    using r by (simp add: py_get_def Let_def)
  have g2: "py_get grids i = Inr (grids ! nat i)"
    using r by (simp add: py_get_def Let_def)
  show ?thesis
    unfolding find_nearest_index_def i_def [symmetric] Let_def g1 g2 using r by simp
qed

lemmas nearest_index_eval =
  find_nearest_index_def searchsorted_def bisect_left.simps np_clip_def py_get_def Let_def

text \<open>
  C4 (amended). On a strictly ascending grid, a query at exactly equal distance from two
  neighbouring grid points is snapped to the higher of the two indices: the comparison
  \<open>abs(x - grids[i - 1]) < abs(x - grids[i])\<close> is strict, so a tie takes the \<open>else\<close> branch.
\<close>

theorem find_nearest_index_tie_upper:
  assumes "sorted_wrt (<) grids" "Suc k < length grids"
    and "x - grids ! k = grids ! Suc k - x"
  shows "find_nearest_index grids x = Inr (int (Suc k))"
proof -
  have lt: "grids ! k < grids ! Suc k"
    using assms(1,2) by (simp add: sorted_wrt_nth_less)
  with assms(3) have x: "grids ! k < x" "x < grids ! Suc k" by simp_all
  have s: "sorted grids" using assms(1) by (simp add: strict_sorted_imp_sorted)
  have ss: "searchsorted grids x = Suc k"
    using searchsorted_between [OF s assms(2)] x by simp
  have clip: "np_clip (int (Suc k)) 1 (int (length grids) - 1) = int (Suc k)"
    using assms(2) by (simp add: np_clip_def)
  have g1: "py_get grids (int (Suc k) - 1) = Inr (grids ! k)"
    using assms(2) by (simp add: py_get_def Let_def)
  have g2: "py_get grids (int (Suc k)) = Inr (grids ! Suc k)"
    using assms(2) by (simp add: py_get_def Let_def del: of_nat_Suc)
  have tie: "\<not> \<bar>x - grids ! k\<bar> < \<bar>x - grids ! Suc k\<bar>"
    using assms(3) x by simp
  show ?thesis
    unfolding find_nearest_index_def ss clip Let_def g1 g2 using tie by simp
qed

theorem find_nearest_index_tie_upper_witness:
  "find_nearest_index [0, 1 / 4, 1 / 2, 3 / 4, 1] (3 / 8) = Inr 2"
  using find_nearest_index_tie_upper [of "[0, 1 / 4, 1 / 2, 3 / 4, 1]" 1 "3 / 8"] by simp

text \<open>
  C4 as stated fails: between the grid points 0 and 1 the query 1/2 is at equal distance
  from both, and the index returned is 1, not 0.
\<close>

theorem find_nearest_index_tie_counterexample:
  "\<bar>1 / 2 - [0, 1 :: real] ! 0\<bar> = \<bar>1 / 2 - [0, 1 :: real] ! 1\<bar>
   \<and> find_nearest_index [0, 1] (1 / 2) = Inr 1
   \<and> find_nearest_index [0, 1] (1 / 2) \<noteq> Inr 0"
  by (simp add: nearest_index_eval)

subsection \<open>The line search's assertion\<close>

text \<open>
  C10 (amended). For a grid of at least two points, when the coordinate to optimize differs
  from the grid value at its nearest index, the line search raises the assertion error and
  has not called the evaluator.
\<close>

theorem discrete_line_search_off_grid:
  assumes "2 \<le> length grids" and "param_idx < length initial_params"
    and "find_nearest_index grids (initial_params ! param_idx) = Inr k"
    and "initial_params ! param_idx \<noteq> grids ! nat k"
  shows "discrete_line_search ext acqf_params initial_params initial_fval param_idx grids xtol
           = (Inl (AssertionError []), 0)"
proof -
  from find_nearest_index_in_range [OF assms(1), of "initial_params ! param_idx"] assms(3)
  have k: "0 \<le> k" "k < int (length grids)" by auto
  then have g: "py_get grids k = Inr (grids ! nat k)"
    by (simp add: py_get_def Let_def)
  from assms(1) have n1: "length grids \<noteq> 1" by simp
  show ?thesis
    unfolding discrete_line_search_def using n1 assms(2,3,4) g
    by (simp add: np_get_def)
qed

theorem discrete_line_search_off_grid_witness:
  "discrete_line_search ex_ext (ex_space [LINEAR] [(0, 1)] [1] sum_list) [1 / 2] 0 0 [0, 1] PInf
     = (Inl (AssertionError []), 0)"
proof -
  have "find_nearest_index [0, 1] ([1 / 2] ! 0) = Inr 1"
    by (simp add: nearest_index_eval)
  from discrete_line_search_off_grid [OF _ _ this] show ?thesis by simp
qed

text \<open>
  C10 as stated fails on a grid of one point: the coordinate 5 is not the grid value 0, and
  the line search returns its input without an error.
\<close>

theorem discrete_line_search_singleton_counterexample:
  "find_nearest_index [0] ([5] ! 0) = Inr 0 \<and> [5 :: real] ! 0 \<noteq> [0] ! nat 0 \<and>
   discrete_line_search ex_ext (ex_space [LINEAR] [(0, 0)] [1] sum_list) [5] 0 0 [0] PInf
     = (Inr ([5], 0, False), 0)"
  by (simp add: nearest_index_eval discrete_line_search_def)

subsection \<open>Evaluating the driver on concrete inputs\<close>

lemma sweeps_pos:
  assumes "0 < k"
  shows "sweeps ext P ci ls tol d k st =
     (case sweep ext P ci ls tol d st of
        (Inl e, eff) \<Rightarrow> (Inl e, eff)
      | (Inr (Returned r), eff) \<Rightarrow> (Inr r, eff)
      | (Inr (Running st'), eff) \<Rightarrow>
      case sweeps ext P ci ls tol d (k - 1) st' of
        (r, eff') \<Rightarrow> (r, and_then eff eff'))"
proof (cases k)
  case 0
  with assms show ?thesis by simp
next
  case (Suc n)
  show ?thesis unfolding Suc by (simp only: sweeps.simps diff_Suc_1)
qed

lemmas driver_defs =
  local_search_mixed_def np_where_def np_take_def Let_def np_get_def
  choices_of_discrete_param_def np_arange_def sweep_def gradient_ascent_def
  local_search_discrete_def exhaustive_search_def MAX_INT_EXHAUSTIVE_SEARCH_PARAMS_def
  and_then_def evals_def optimizer_call_def no_effects_def paramwise_xtol_def np_diff_def

subsection \<open>A choice set of one element\<close>

text \<open>
  C3. A categorical parameter with one category has the choice set \<open>[0]\<close>. From the only
  point of that space the driver does not return its input: the exhaustive search evaluates
  the empty batch of other choices and \<open>np.argmax\<close> raises ValueError on the empty result.
  The line search returns the input unchanged on the same choice set, but the dispatch
  never sends fewer than 17 choices to it.
\<close>

theorem singleton_choice_raises:
  "local_search_mixed ex_ext (ex_space [CATEGORICAL] [(0, 1)] [1] sum_list) [0] (1 / 10 ^ 4) 100
     = (Inl ValueError, \<lparr>n_evals = 2, optimized = [CONTINUOUS, 0], warnings = []\<rparr>)
   \<and> exhaustive_search (ex_space [CATEGORICAL] [(0, 1)] [1] sum_list) [0] 0 0 [0]
     = (Inl ValueError, 1)
   \<and> discrete_line_search ex_ext (ex_space [CATEGORICAL] [(0, 1)] [1] sum_list) [0] 0 0 [0] PInf
     = (Inr ([0], 0, False), 0)"
  by (simp add: driver_defs ex_space_def sweeps_pos discrete_line_search_def)

subsection \<open>The softmax weights of a pool of equal values\<close>

lemma argmax_from_replicate: "argmax_from bi v i (replicate m v) = bi"
  by (induction m arbitrary: i) simp_all

lemma np_argmax_replicate: "0 < n \<Longrightarrow> np_argmax (replicate n v) = Inr 0"
  by (cases n) (simp_all add: argmax_from_replicate)

lemma softmax_probs_replicate:
  assumes "2 \<le> n"
  shows "softmax_probs (replicate n v) 0 = Fin 0 # replicate (n - 1) (Fin (1 / real (n - 1)))"
proof -
  obtain m where n: "n = Suc m" and m: "0 < m" using assms by (cases n) auto
  have w: "(map (\<lambda>x. exp (x - replicate n v ! 0)) (replicate n v))[0 := 0]
             = 0 # replicate m (1 :: real)"
    by (simp add: n)
  have s: "sum_list (0 # replicate m (1 :: real)) = real m"
    by (simp add: sum_list_replicate)
  show ?thesis
    unfolding softmax_probs_def Let_def w s using m
    by (simp add: np_true_divide_def n)
qed

text \<open>
  C9 (amended). When a pool of at least two points has one common acquisition value, the
  maximizer is the first point, its weight is exactly zero, every other weight is
  \<open>1 / (n - 1)\<close>, and the weights are a valid probability distribution; computing them
  raises nothing.
\<close>

theorem softmax_probs_all_equal:
  assumes "2 \<le> n"
  shows "np_argmax (replicate n v) = Inr 0
    \<and> softmax_probs (replicate n v) 0 = Fin 0 # replicate (n - 1) (Fin (1 / real (n - 1)))
    \<and> is_distribution (softmax_probs (replicate n v) 0)"
proof -
  have a: "np_argmax (replicate n v) = Inr 0"
    using assms by (simp add: np_argmax_replicate)
  have d: "is_distribution (Fin 0 # replicate (n - 1) (Fin (1 / real (n - 1))))"
    using assms by (simp add: is_distribution_def list_all_iff sum_list_replicate)
  show ?thesis
    using a d softmax_probs_replicate [OF assms, of v] by simp
qed

theorem softmax_probs_all_equal_witness:
  "np_argmax [7, 7, 7] = Inr 0
    \<and> softmax_probs [7, 7, 7] 0 = [Fin 0, Fin (1 / 2), Fin (1 / 2)]
    \<and> is_distribution (softmax_probs [7, 7, 7] 0)"
  using softmax_probs_all_equal [of 3 7] by (auto simp add: numeral_3_eq_3)

text \<open>
  C9 as stated fails for a pool of one point: the only weight is zeroed, the sum is zero and
  the division yields nan, which is no probability distribution.
\<close>

theorem softmax_probs_single_point_counterexample:
  "np_argmax [0] = Inr 0 \<and> softmax_probs [0] 0 = [NaN]
   \<and> \<not> is_distribution (softmax_probs [0] 0)"
  by (simp add: softmax_probs_def np_true_divide_def is_distribution_def)

subsection \<open>The precondition of the multi-start driver\<close>

lemma n_evals_and_then: "n_evals (and_then a b) = n_evals a + n_evals b"
  by (simp add: and_then_def)

text \<open>
  C5. With more seed points than \<open>n_local_search - 1\<close> the call raises the assertion error
  of the precondition and the evaluator has not been called. Otherwise the assertion passes:
  execution goes on to sample the pool and evaluate it, so the evaluator is called at least
  once.
\<close>

theorem optimize_acqf_mixed_precondition:
  "(n_local_search - 1 < int (length (case given_initial_xs of Some xs \<Rightarrow> xs | None \<Rightarrow> []))
      \<longrightarrow> fst (optimize_acqf_mixed ext acqf_params given_initial_xs n_additional_samples
                 n_local_search tol rng) = Inl (AssertionError too_many_initial_xs)
          \<and> n_evals (snd (optimize_acqf_mixed ext acqf_params given_initial_xs
                 n_additional_samples n_local_search tol rng)) = 0)
   \<and> (int (length (case given_initial_xs of Some xs \<Rightarrow> xs | None \<Rightarrow> [])) \<le> n_local_search - 1
      \<longrightarrow> 1 \<le> n_evals (snd (optimize_acqf_mixed ext acqf_params given_initial_xs
                  n_additional_samples n_local_search tol rng)))"
  by (auto simp: optimize_acqf_mixed_def Let_def no_effects_def evals_def n_evals_and_then
      split: prod.splits sum.splits option.splits)

theorem optimize_acqf_mixed_precondition_witness:
  "fst (optimize_acqf_mixed ex_ext (ex_space [CATEGORICAL] [(0, 2)] [1] sum_list)
      (Some [[0], [1]]) 2 2 (1 / 10 ^ 4) None) = Inl (AssertionError too_many_initial_xs)
   \<and> n_evals (snd (optimize_acqf_mixed ex_ext (ex_space [CATEGORICAL] [(0, 2)] [1] sum_list)
      (Some [[0], [1]]) 2 2 (1 / 10 ^ 4) None)) = 0
   \<and> 1 \<le> n_evals (snd (optimize_acqf_mixed ex_ext (ex_space [CATEGORICAL] [(0, 2)] [1] sum_list)
      (Some [[0]]) 2 2 (1 / 10 ^ 4) None))"
  using optimize_acqf_mixed_precondition [of 2 "Some [[0], [1]]" ex_ext
           "ex_space [CATEGORICAL] [(0, 2)] [1] sum_list" 2 "1 / 10 ^ 4" None]
        optimize_acqf_mixed_precondition [of 2 "Some [[0]]" ex_ext
           "ex_space [CATEGORICAL] [(0, 2)] [1] sum_list" 2 "1 / 10 ^ 4" None]
  by simp

subsection \<open>The acceptance test of the continuous optimizer\<close>

lemma length_fold_update:
  "length (fold (\<lambda>(i, x) b. b[i := x]) ps a) = length a"
  by (induction ps arbitrary: a) (auto split: prod.splits)

lemma length_fold_update_const:
  "length (fold (\<lambda>i b. b[i := c]) is a) = length a"
  by (induction "is" arbitrary: a) auto

lemma np_put_length: "np_put a idx v = Inr b \<Longrightarrow> length b = length a"
  by (auto simp: np_put_def length_fold_update length_fold_update_const split: if_splits)

lemma negative_acqf_with_grad_length:
  "negative_acqf_with_grad P ci ls x (np, n) = (r, (np', n')) \<Longrightarrow> length np' = length np"
  by (auto simp: negative_acqf_with_grad_def Let_def dest: np_put_length split: sum.splits)

lemma run_solver_invariant:
  assumes "\<And>q s r s'. I s \<Longrightarrow> f q s = (r, s') \<Longrightarrow> I s'"
  shows "I s \<Longrightarrow> run_solver t f s = (r, s') \<Longrightarrow> I s'"
proof (induction t arbitrary: s)
  case (Stop x)
  then show ?case by simp
next
  case (Ask q k)
  obtain a s1 where f: "f q s = (a, s1)" by (cases "f q s")
  with assms Ask.prems(1) have i1: "I s1" by blast
  show ?case
  proof (cases a)
    case (Inl e)
    with Ask.prems f i1 show ?thesis by simp
  next
    case (Inr v)
    with Ask.prems f have "run_solver (k v) f s1 = (r, s')" by simp
    from Ask.IH [OF _ i1 this] show ?thesis by simp
  qed
qed

lemma call_fmin_l_bfgs_b_length:
  assumes "call_fmin_l_bfgs_b ext P np0 ci ls tol = (r, np, n)"
  shows "length np = length np0"
proof -
  have inv: "\<And>t s. run_solver t (negative_acqf_with_grad P ci ls) (np0, 0) = (r, (np, n))
      \<Longrightarrow> length np = length np0"
  proof -
    fix t s
    assume run: "run_solver t (negative_acqf_with_grad P ci ls) (np0, 0) = (r, (np, n))"
    have "(\<lambda>st. length (fst st) = length np0) (np, n)"
    proof (rule run_solver_invariant [where I = "\<lambda>st. length (fst st) = length np0"
          and f = "negative_acqf_with_grad P ci ls", OF _ _ run])
      fix q s r' s'
      assume "length (fst s) = length np0" "negative_acqf_with_grad P ci ls q s = (r', s')"
      then show "length (fst s') = length np0"
        using negative_acqf_with_grad_length [of P ci ls q "fst s" "snd s" r' "fst s'" "snd s'"]
        by simp
    qed simp
    then show "length np = length np0" by simp
  qed
  from assms show ?thesis
    by (auto simp: call_fmin_l_bfgs_b_def Let_def dest: inv split: sum.splits)
qed

text \<open>
  C6. Without continuous indices the continuous optimizer returns the input vector and value
  with the flag unset, whatever the other arguments are, and calls neither the solver nor
  the evaluator. With continuous indices, let the solver return the point
  \<open>scaled_cont_x_opt\<close>, the value \<open>neg_fval_opt\<close> and \<open>nit\<close> iterations, on arrays of
  matching lengths: the optimizer reports an improvement, with the value \<open>- neg_fval_opt\<close>
  and the point written back, exactly when \<open>- neg_fval_opt\<close> strictly exceeds the input
  value and \<open>nit\<close> is positive; in every other case it returns the input vector and value
  with the flag unset.
\<close>

theorem gradient_ascent_accepts_iff:
  assumes "continuous_indices \<noteq> [] \<Longrightarrow>
      call_fmin_l_bfgs_b ext acqf_params initial_params continuous_indices lengthscale tol
        = (Inr (scaled_cont_x_opt, neg_fval_opt, nit), normalized_params, n)"
    and "continuous_indices \<noteq> [] \<Longrightarrow> length lengthscale = length continuous_indices"
    and "continuous_indices \<noteq> [] \<Longrightarrow> length scaled_cont_x_opt = length continuous_indices"
    and "continuous_indices \<noteq> [] \<Longrightarrow> \<forall>i \<in> set continuous_indices. i < length initial_params"
  shows "gradient_ascent ext acqf_params initial_params initial_fval continuous_indices
           lengthscale tol =
     (if continuous_indices = [] then (Inr (initial_params, initial_fval, False), 0)
      else if initial_fval < - neg_fval_opt \<and> 0 < nit
      then (Inr (fold (\<lambda>(i, x) b. b[i := x])
                   (zip continuous_indices (map2 (*) scaled_cont_x_opt lengthscale))
                   normalized_params,
                 - neg_fval_opt, True), n)
      else (Inr (initial_params, initial_fval, False), n))"
proof (cases "continuous_indices = []")
  case True
  then show ?thesis by (simp add: gradient_ascent_def)
next
  case False
  note call = assms(1) [OF False] and l1 = assms(2) [OF False] and l2 = assms(3) [OF False]
    and rng = assms(4) [OF False]
  have len: "length normalized_params = length initial_params"
    using call_fmin_l_bfgs_b_length [OF call] .
  have mul: "np_mul scaled_cont_x_opt lengthscale = Inr (map2 (*) scaled_cont_x_opt lengthscale)"
    using l1 l2 by (simp add: np_mul_def)
  have put: "np_put normalized_params continuous_indices (map2 (*) scaled_cont_x_opt lengthscale)
      = Inr (fold (\<lambda>(i, x) b. b[i := x])
               (zip continuous_indices (map2 (*) scaled_cont_x_opt lengthscale)) normalized_params)"
    using l1 l2 rng len by (auto simp: np_put_def)
  show ?thesis
    unfolding gradient_ascent_def using False call mul put by simp
qed

theorem gradient_ascent_accepts_iff_witness:
  "gradient_ascent ex_ext (ex_space [LINEAR] [(0, 1)] [0] sum_list) [0] 0 [0] [1] (1 / 10 ^ 4)
     = (Inr ([1 / 2], 1 / 2, True), 1)
   \<and> gradient_ascent ex_ext (ex_space [LINEAR] [(0, 1)] [0] sum_list) [0] (1 / 2) [0] [1] (1 / 10 ^ 4)
     = (Inr ([0], 1 / 2, False), 1)
   \<and> gradient_ascent ex_ext (ex_space [CATEGORICAL] [(0, 2)] [1] sum_list) [0] 0 [] [] (- 1)
     = (Inr ([0], 0, False), 0)"
proof -
  have call:
    "call_fmin_l_bfgs_b ex_ext (ex_space [LINEAR] [(0, 1)] [0] sum_list) [0] [0] [1] (1 / 10 ^ 4)
       = (Inr ([1 / 2], - (1 / 2), 1), [1 / 2], 1)"
    by (simp add: call_fmin_l_bfgs_b_def np_take_def np_div_def Let_def math_sqrt_def ex_ext_def
        negative_acqf_with_grad_def np_mul_def np_put_def ex_space_def)
  have improved:
    "gradient_ascent ex_ext (ex_space [LINEAR] [(0, 1)] [0] sum_list) [0] 0 [0] [1] (1 / 10 ^ 4)
       = (Inr ([1 / 2], 1 / 2, True), 1)"
    using gradient_ascent_accepts_iff [OF call, of 0] by simp
  have unchanged:
    "gradient_ascent ex_ext (ex_space [LINEAR] [(0, 1)] [0] sum_list) [0] (1 / 2) [0] [1] (1 / 10 ^ 4)
       = (Inr ([0], 1 / 2, False), 1)"
    using gradient_ascent_accepts_iff [OF call, of "1 / 2"] by simp
  have empty:
    "gradient_ascent ex_ext (ex_space [CATEGORICAL] [(0, 2)] [1] sum_list) [0] 0 [] [] (- 1)
       = (Inr ([0], 0, False), 0)"
    using gradient_ascent_accepts_iff [of "[]" ex_ext
        "ex_space [CATEGORICAL] [(0, 2)] [1] sum_list" "[0]" "[]" "- 1" "[]" 0 0 "[]" 0 0]
    by simp
  from improved unchanged empty show ?thesis by simp
qed

subsection \<open>The multi-start driver dominates its pool\<close>

lemma argmax_from_max:
  "bi < i \<Longrightarrow>
   (argmax_from bi bv i xs = bi \<and> (\<forall>v \<in> set xs. v \<le> bv)) \<or>
   (i \<le> argmax_from bi bv i xs \<and> argmax_from bi bv i xs < i + length xs
      \<and> bv < xs ! (argmax_from bi bv i xs - i)
      \<and> (\<forall>v \<in> set xs. v \<le> xs ! (argmax_from bi bv i xs - i)))"
proof (induction xs arbitrary: bi bv i)
  case Nil
  then show ?case by simp
next
  case (Cons y ys)
  show ?case
  proof (cases "bv < y")
    case True
    let ?r = "argmax_from i y (Suc i) ys"
    have r: "argmax_from bi bv i (y # ys) = ?r" using True by simp
    from Cons.IH [of i "Suc i" y]
    consider (a) "?r = i" "\<forall>v \<in> set ys. v \<le> y"
      | (b) "Suc i \<le> ?r" "?r < Suc i + length ys" "y < ys ! (?r - Suc i)"
            "\<forall>v \<in> set ys. v \<le> ys ! (?r - Suc i)"
      by auto
    then show ?thesis
    proof cases
      case a
      with True show ?thesis unfolding r by auto
    next
      case b
      then have nth: "(y # ys) ! (?r - i) = ys ! (?r - Suc i)"
        by (simp add: nth_Cons')
      from b True show ?thesis unfolding r nth by auto
    qed
  next
    case False
    let ?r = "argmax_from bi bv (Suc i) ys"
    have r: "argmax_from bi bv i (y # ys) = ?r" using False by simp
    from Cons.prems have "bi < Suc i" by simp
    from Cons.IH [OF this, of bv]
    consider (a) "?r = bi" "\<forall>v \<in> set ys. v \<le> bv"
      | (b) "Suc i \<le> ?r" "?r < Suc i + length ys" "bv < ys ! (?r - Suc i)"
            "\<forall>v \<in> set ys. v \<le> ys ! (?r - Suc i)"
      by auto
    then show ?thesis
    proof cases
      case a
      with False show ?thesis unfolding r by auto
    next
      case b
      then have nth: "(y # ys) ! (?r - i) = ys ! (?r - Suc i)"
        by (simp add: nth_Cons')
      from b False show ?thesis unfolding r nth by auto
    qed
  qed
qed

lemma np_argmax_max:
  assumes "np_argmax xs = Inr i"
  shows "i < length xs \<and> (\<forall>v \<in> set xs. v \<le> xs ! i)"
proof (cases xs)
  case Nil
  with assms show ?thesis by simp
next
  case (Cons y ys)
  with assms have i: "i = argmax_from 0 y 1 ys" by simp
  from argmax_from_max [of 0 1 y ys]
  consider (a) "i = 0" "\<forall>v \<in> set ys. v \<le> y"
    | (b) "1 \<le> i" "i < 1 + length ys" "y < ys ! (i - 1)" "\<forall>v \<in> set ys. v \<le> ys ! (i - 1)"
    unfolding i by auto
  then show ?thesis
  proof cases
    case a
    then show ?thesis unfolding Cons by simp
  next
    case b
    then have "(y # ys) ! i = ys ! (i - 1)" by (simp add: nth_Cons')
    with b show ?thesis unfolding Cons by auto
  qed
qed

lemma multi_start_mono:
  "multi_start ext P tol starts (bx, bf) = (Inr (x, f), eff) \<Longrightarrow> bf \<le> f"
proof (induction starts arbitrary: bx bf eff)
  case Nil
  then show ?case by simp
next
  case (Cons s starts)
  from Cons.prems obtain y g e1 e2 where
    rest: "multi_start ext P tol starts (if bf < g then (y, g) else (bx, bf)) = (Inr (x, f), e2)"
    by (auto split: prod.splits sum.splits)
  show ?case
  proof (cases "bf < g")
    case True
    with rest Cons.IH [of y g e2] show ?thesis by simp
  next
    case False
    with rest Cons.IH [of bx bf e2] show ?thesis by simp
  qed
qed

text \<open>
  C1. Whenever the multi-start driver returns, the value it returns is at least the
  acquisition value of every point of the sampled pool.
\<close>

theorem optimize_acqf_mixed_dominates_pool:
  assumes "optimize_acqf_mixed ext acqf_params given_initial_xs n_additional_samples
             n_local_search tol rng = (Inr (x, f), eff)"
    and "sample_normalized_params ext n_additional_samples (search_space acqf_params)
           (case rng of Some r \<Rightarrow> r | None \<Rightarrow> default_rng ext) = (sampled_xs, rng')"
  shows "\<forall>s \<in> set sampled_xs. acqf acqf_params s \<le> f"
proof -
  let ?fv = "map (acqf acqf_params) sampled_xs"
  from assms obtain max_i bx starts e where
    am: "np_argmax ?fv = Inr max_i" and
    ms: "multi_start ext acqf_params tol starts (bx, ?fv ! max_i) = (Inr (x, f), e)"
    by (auto simp: optimize_acqf_mixed_def Let_def simp del: multi_start.simps
        split: if_splits prod.splits sum.splits)
  from np_argmax_max [OF am] have "\<forall>v \<in> set ?fv. v \<le> ?fv ! max_i" by blast
  moreover from multi_start_mono [OF ms] have "?fv ! max_i \<le> f" .
  ultimately have "\<forall>v \<in> set ?fv. v \<le> f" by fastforce
  then show ?thesis by simp
qed


theorem optimize_acqf_mixed_dominates_pool_witness:
  "optimize_acqf_mixed ex_ext (ex_space [CATEGORICAL] [(0, 2)] [1] sum_list) None 2 1
      (1 / 10 ^ 4) None
     = (Inr ([1], 1), \<lparr>n_evals = 3, optimized = [CONTINUOUS, 0], warnings = []\<rparr>)
   \<and> acqf (ex_space [CATEGORICAL] [(0, 2)] [1] sum_list) [0] \<le> 1
   \<and> acqf (ex_space [CATEGORICAL] [(0, 2)] [1] sum_list) [1] \<le> 1"
proof -
  have run:
    "optimize_acqf_mixed ex_ext (ex_space [CATEGORICAL] [(0, 2)] [1] sum_list) None 2 1
        (1 / 10 ^ 4) None
       = (Inr ([1], 1), \<lparr>n_evals = 3, optimized = [CONTINUOUS, 0], warnings = []\<rparr>)"
    by (simp add: optimize_acqf_mixed_def driver_defs ex_space_def ex_ext_def sweeps_pos
        eval_nat_numeral)
  have pool:
    "sample_normalized_params ex_ext 2
       (search_space (ex_space [CATEGORICAL] [(0, 2)] [1] sum_list))
       (case None of Some r \<Rightarrow> r | None \<Rightarrow> default_rng ex_ext) = ([[0], [1]], ())"
    by (simp add: ex_ext_def)
  from optimize_acqf_mixed_dominates_pool [OF run pool] run show ?thesis by simp
qed

subsection \<open>The coordinate-descent driver never regresses\<close>

lemma gradient_ascent_mono:
  "gradient_ascent ext P p f ci ls tol = (Inr (p', f', u), n)
     \<Longrightarrow> (if u then f < f' else p' = p \<and> f' = f)"
  by (auto simp: gradient_ascent_def split: if_splits prod.splits sum.splits)

lemma exhaustive_search_mono:
  "exhaustive_search P p f i choices = (Inr (p', f', u), n)
     \<Longrightarrow> (if u then f < f' else p' = p \<and> f' = f)"
  by (auto simp: exhaustive_search_def Let_def split: if_splits prod.splits sum.splits)

lemma discrete_line_search_mono:
  "discrete_line_search ext P p f i grids xtol = (Inr (p', f', u), n)
     \<Longrightarrow> (if u then f < f' else p' = p \<and> f' = f)"
  by (auto simp: discrete_line_search_def Let_def split: if_splits prod.splits sum.splits)

lemma local_search_discrete_mono:
  "local_search_discrete ext P p f i choices xtol = (Inr (p', f', u), n)
     \<Longrightarrow> (if u then f < f' else p' = p \<and> f' = f)"
  by (auto simp: local_search_discrete_def
      dest: exhaustive_search_mono discrete_line_search_mono split: if_splits sum.splits)

lemma discrete_sweep_mono:
  "discrete_sweep ext P d (p, f, l) = (Inr fl, eff) \<Longrightarrow> f \<le> flow_value fl"
proof (induction d arbitrary: p f l eff)
  case Nil
  then show ?case by auto
next
  case (Cons g d)
  obtain i choices xtol where g: "g = (i, choices, xtol)" by (cases g)
  show ?case
  proof (cases "l = Some (int i)")
    case True
    with Cons.prems g show ?thesis by auto
  next
    case False
    with Cons.prems g obtain p' f' u n eff' where
      opt: "local_search_discrete ext P p f i choices xtol = (Inr (p', f', u), n)" and
      rest: "discrete_sweep ext P d (p', f', if u then Some (int i) else l) = (Inr fl, eff')"
      by (auto split: prod.splits sum.splits)
    from local_search_discrete_mono [OF opt] have "f \<le> f'" by (auto split: if_splits)
    with Cons.IH [OF rest] show ?thesis by simp
  qed
qed

lemma sweep_mono:
  assumes "sweep ext P ci ls tol d (p, f, l) = (Inr fl, eff)"
  shows "f \<le> flow_value fl"
proof (cases "l = Some CONTINUOUS")
  case True
  with assms show ?thesis by (auto simp: sweep_def)
next
  case False
  with assms obtain p' f' u n fl' eff' where
    ga: "gradient_ascent ext P p f ci ls tol = (Inr (p', f', u), n)" and
    ds: "discrete_sweep ext P d (p', f', if u then Some CONTINUOUS else l) = (Inr fl', eff')" and
    fl: "flow_value fl = flow_value fl'"
    by (auto simp: sweep_def split: prod.splits sum.splits flow.splits if_splits)
  from gradient_ascent_mono [OF ga] have "f \<le> f'" by (auto split: if_splits)
  with discrete_sweep_mono [OF ds] fl show ?thesis by simp
qed

lemma sweeps_mono:
  "sweeps ext P ci ls tol d k (p, f, l) = (Inr (x, v), eff) \<Longrightarrow> f \<le> v"
proof (induction k arbitrary: p f l eff)
  case 0
  then show ?case by simp
next
  case (Suc k)
  from Suc.prems obtain fl e1 where
    sw: "sweep ext P ci ls tol d (p, f, l) = (Inr fl, e1)"
    by (auto split: prod.splits sum.splits)
  show ?case
  proof (cases fl)
    case (Returned r)
    with Suc.prems sw sweep_mono [OF sw] show ?thesis by (cases r) auto
  next
    case (Running st)
    obtain p' f' l' where st: "st = (p', f', l')" by (cases st)
    with Suc.prems sw Running obtain e2 where
      "sweeps ext P ci ls tol d k (p', f', l') = (Inr (x, v), e2)"
      by (auto split: prod.splits)
    from Suc.IH [OF this] sweep_mono [OF sw] Running st show ?thesis by simp
  qed
qed

text \<open>
  C2. Whenever the coordinate-descent driver returns, by its convergence test or after the
  last permitted pass, the value it returns is at least the acquisition value of the start
  vector.
\<close>

theorem local_search_mixed_never_regresses:
  assumes "local_search_mixed ext acqf_params initial_normalized_params tol max_iter
             = (Inr (x, f), eff)"
  shows "acqf acqf_params initial_normalized_params \<le> f"
  using assms
  by (auto simp: local_search_mixed_def Let_def dest: sweeps_mono split: prod.splits sum.splits)

theorem local_search_mixed_never_regresses_witness:
  "local_search_mixed ex_ext (ex_space [CATEGORICAL] [(0, 2)] [1] sum_list) [0] (1 / 10 ^ 4) 1
     = (Inr ([1], 1), \<lparr>n_evals = 2, optimized = [CONTINUOUS, 0], warnings = [not_converged]\<rparr>)
   \<and> acqf (ex_space [CATEGORICAL] [(0, 2)] [1] sum_list) [0] \<le> 1"
proof -
  have run:
    "local_search_mixed ex_ext (ex_space [CATEGORICAL] [(0, 2)] [1] sum_list) [0] (1 / 10 ^ 4) 1
       = (Inr ([1], 1), \<lparr>n_evals = 2, optimized = [CONTINUOUS, 0], warnings = [not_converged]\<rparr>)"
    by (simp add: driver_defs ex_space_def ex_ext_def sweeps_pos eval_nat_numeral)
  from local_search_mixed_never_regresses [OF run] run show ?thesis by simp
qed

subsection \<open>The driver's loop is the specified state machine\<close>

lemma code_of_simps [simp]:
  "code_of m = None \<longleftrightarrow> m = NoneYet"
  "code_of m = Some CONTINUOUS \<longleftrightarrow> m = TheContinuousGroup"
  "code_of m = Some (int i) \<longleftrightarrow> m = DiscreteIndex i"
  by (cases m; simp add: CONTINUOUS_def)+

lemma discrete_sweep_refines:
  "discrete_sweep ext P d (p, f, code_of m) =
     (case spec_cycle ext P ci ls tol (map discrete_group d) (p, f, m) of
        (r, eff) \<Rightarrow> (map_sum id code_flow r, eff))"
proof (induction d arbitrary: p f m)
  case Nil
  show ?case by simp
next
  case (Cons g d)
  obtain i choices xtol where g: "g = (i, choices, xtol)" by (cases g)
  show ?case
  proof (cases "m = DiscreteIndex i")
    case True
    then show ?thesis by (simp add: g)
  next
    case False
    obtain r n where opt: "local_search_discrete ext P p f i choices xtol = (r, n)"
      by (cases "local_search_discrete ext P p f i choices xtol")
    show ?thesis
    proof (cases r)
      case (Inl e)
      with False opt show ?thesis by (simp add: g)
    next
      case (Inr t)
      obtain p' f' u where t: "t = (p', f', u)" by (cases t)
      have next_state: "(if u then Some (int i) else code_of m)
          = code_of (if u then DiscreteIndex i else m)" by simp
      show ?thesis
        using False opt Inr t Cons.IH [of p' f' "if u then DiscreteIndex i else m"]
        by (simp add: g next_state split: prod.splits)
    qed
  qed
qed

lemma sweep_refines:
  "sweep ext P ci ls tol d (p, f, code_of m) =
     (case spec_cycle ext P ci ls tol (ContinuousGroup # map discrete_group d) (p, f, m) of
        (Inl e, eff) \<Rightarrow> (Inl e, eff)
      | (Inr (Terminated r), eff) \<Rightarrow> (Inr (Returned r), eff)
      | (Inr (Swept (p', f', m')), eff) \<Rightarrow>
          (Inr (if m' = NoneYet then Returned (p', f') else Running (p', f', code_of m')), eff))"
proof (cases "m = TheContinuousGroup")
  case True
  then show ?thesis by (simp add: sweep_def)
next
  case False
  obtain r n where opt: "gradient_ascent ext P p f ci ls tol = (r, n)"
    by (cases "gradient_ascent ext P p f ci ls tol")
  show ?thesis
  proof (cases r)
    case (Inl e)
    with False opt show ?thesis by (simp add: sweep_def)
  next
    case (Inr t)
    obtain p' f' u where t: "t = (p', f', u)" by (cases t)
    have next_state: "(if u then Some CONTINUOUS else code_of m)
        = code_of (if u then TheContinuousGroup else m)" by simp
    obtain r2 e2 where sc: "spec_cycle ext P ci ls tol (map discrete_group d)
        (p', f', if u then TheContinuousGroup else m) = (r2, e2)"
      by (cases "spec_cycle ext P ci ls tol (map discrete_group d)
        (p', f', if u then TheContinuousGroup else m)")
    have ds: "discrete_sweep ext P d (p', f', code_of (if u then TheContinuousGroup else m))
        = (map_sum id code_flow r2, e2)"
      using discrete_sweep_refines [of ext P d p' f' "if u then TheContinuousGroup else m" ci ls tol] sc
      by simp
    show ?thesis
      using False opt Inr t sc ds
      by (auto simp: sweep_def next_state split: sum.splits spec_flow.splits flow.splits)
  qed
qed

lemma sweeps_refines:
  "sweeps ext P ci ls tol d k (p, f, code_of m) =
     spec_driver ext P ci ls tol (ContinuousGroup # map discrete_group d) k (p, f, m)"
proof (induction k arbitrary: p f m)
  case 0
  show ?case by simp
next
  case (Suc k)
  obtain r e where sc: "spec_cycle ext P ci ls tol (ContinuousGroup # map discrete_group d) (p, f, m) = (r, e)"
    by (cases "spec_cycle ext P ci ls tol (ContinuousGroup # map discrete_group d) (p, f, m)")
  show ?case
  proof (cases r)
    case (Inl err)
    with sc show ?thesis
      using sweep_refines [of ext P ci ls tol d p f m] by (simp del: spec_cycle.simps)
  next
    case (Inr fl)
    show ?thesis
    proof (cases fl)
      case (Terminated res)
      with sc Inr show ?thesis
        using sweep_refines [of ext P ci ls tol d p f m] by (simp del: spec_cycle.simps)
    next
      case (Swept st)
      obtain p' f' m' where st: "st = (p', f', m')" by (cases st)
      show ?thesis
        using sc Inr Swept st sweep_refines [of ext P ci ls tol d p f m] Suc.IH [of p' f' m']
        by (simp del: spec_cycle.simps)
    qed
  qed
qed


lemma effects_simps [simp]:
  "optimized no_effects = []" "warnings no_effects = []" "n_evals no_effects = 0"
  "optimized (optimizer_call g n) = [g]" "warnings (optimizer_call g n) = []"
  "optimized (and_then a b) = optimized a @ optimized b"
  "warnings (and_then a b) = warnings a @ warnings b"
  "optimized (evals n) = []" "warnings (evals n) = []"
  by (simp_all add: no_effects_def optimizer_call_def and_then_def evals_def)

lemma spec_cycle_trace:
  "spec_cycle ext P ci ls tol gs st = (r, eff) \<Longrightarrow>
     prefix (optimized eff) (map group_id gs) \<and> warnings eff = []
     \<and> (\<forall>st'. r = Inr (Swept st') \<longrightarrow> optimized eff = map group_id gs)"
proof (induction gs arbitrary: st r eff)
  case Nil
  then show ?case by auto
next
  case (Cons g gs)
  obtain p f m where st: "st = (p, f, m)" by (cases st)
  show ?case
  proof (cases "m = improver_of g")
    case True
    with Cons.prems st show ?thesis by auto
  next
    case False
    obtain r1 n where opt: "optimize_group ext P ci ls tol g p f = (r1, n)"
      by (cases "optimize_group ext P ci ls tol g p f")
    show ?thesis
    proof (cases r1)
      case (Inl e)
      with Cons.prems st False opt show ?thesis by auto
    next
      case (Inr t)
      obtain p' f' u where t: "t = (p', f', u)" by (cases t)
      obtain r2 e2 where rest:
        "spec_cycle ext P ci ls tol gs (p', f', if u then improver_of g else m) = (r2, e2)"
        by (cases "spec_cycle ext P ci ls tol gs (p', f', if u then improver_of g else m)")
      from Cons.prems st False opt Inr t rest
      have r: "r = r2" and eff: "eff = and_then (optimizer_call (group_id g) n) e2"
        by auto
      from Cons.IH [OF rest] show ?thesis unfolding r eff by simp
    qed
  qed
qed







subsection \<open>Running the driver again on its own output\<close>

lemma optimize_group_mono:
  "optimize_group ext P ci ls tol g p f = (Inr (p', f', u), n)
     \<Longrightarrow> (if u then f < f' else p' = p \<and> f' = f)"
  by (cases g) (auto dest: gradient_ascent_mono local_search_discrete_mono simp del: if_split)

lemma improver_of_not_none [simp]: "improver_of g \<noteq> NoneYet" "NoneYet \<noteq> improver_of g"
  by (cases g; simp)+

lemma stable_unchanged:
  assumes "optimize_group ext P ci ls tol g p f = (Inr (p', f', False), n)"
  shows "p' = p" "f' = f" "group_stable ext P ci ls tol g p f"
proof -
  from optimize_group_mono [OF assms] show a: "p' = p" and b: "f' = f" by simp_all
  from assms a b show "group_stable ext P ci ls tol g p f" by (simp add: group_stable_def)
qed

lemma settled_since_none:
  "f = acqf P p \<Longrightarrow> \<forall>h \<in> set handled. group_stable ext P ci ls tol h p f
     \<Longrightarrow> settled_since ext P ci ls tol handled todo (p, f, NoneYet)"
  by (simp add: settled_since_def)

lemma settled_since_handled:
  assumes "f = acqf P p" "group_stable ext P ci ls tol g p f"
    and "\<forall>h \<in> set d2. group_stable ext P ci ls tol h p f"
  shows "settled_since ext P ci ls tol (d1 @ g # d2) todo (p, f, improver_of g)"
proof -
  have "\<exists>g' e1 e2. d1 @ g # d2 = e1 @ g' # e2 \<and> improver_of g' = improver_of g
          \<and> group_stable ext P ci ls tol g' p f
          \<and> (\<forall>h \<in> set e2. group_stable ext P ci ls tol h p f)"
    by (rule exI [of _ g], rule exI [of _ d1], rule exI [of _ d2]) (use assms(2,3) in simp)
  with assms(1) show ?thesis
    unfolding settled_since_def by (simp del: append_eq_append_conv2 append_eq_Cons_conv)
qed

lemma settled_since_todo:
  assumes "f = acqf P p" "group_stable ext P ci ls tol g p f"
    and "\<forall>h \<in> set t2. group_stable ext P ci ls tol h p f"
    and "\<forall>h \<in> set handled. group_stable ext P ci ls tol h p f"
  shows "settled_since ext P ci ls tol handled (t1 @ g # t2) (p, f, improver_of g)"
proof -
  have "\<exists>g' e1 e2. t1 @ g # t2 = e1 @ g' # e2 \<and> improver_of g' = improver_of g
          \<and> group_stable ext P ci ls tol g' p f
          \<and> (\<forall>h \<in> set e2. group_stable ext P ci ls tol h p f)
          \<and> (\<forall>h \<in> set handled. group_stable ext P ci ls tol h p f)"
    by (rule exI [of _ g], rule exI [of _ t1], rule exI [of _ t2]) (use assms(2,3,4) in simp)
  with assms(1) show ?thesis
    unfolding settled_since_def by (simp del: append_eq_append_conv2 append_eq_Cons_conv)
qed

lemma spec_cycle_settles:
  assumes "distinct (map improver_of (handled @ todo))"
    and "\<forall>g \<in> set todo. repeatable ext P ci ls tol g"
    and "settled_since ext P ci ls tol handled todo st"
    and "spec_cycle ext P ci ls tol todo st = (Inr fl, eff)"
  shows "case fl of
           Terminated (p, f) \<Rightarrow>
             f = acqf P p \<and> (\<forall>g \<in> set (handled @ todo). group_stable ext P ci ls tol g p f)
         | Swept st' \<Rightarrow> settled_since ext P ci ls tol (handled @ todo) [] st'"
  using assms
proof (induction todo arbitrary: handled st eff)
  case Nil
  then show ?case by auto
next
  case (Cons g todo)
  obtain p f m where st: "st = (p, f, m)" by (cases st)
  from Cons.prems(3) st have val: "f = acqf P p" by (simp add: settled_since_def)
  have dist_g: "improver_of g \<notin> improver_of ` set handled"
    "improver_of g \<notin> improver_of ` set todo"
    using Cons.prems(1) by auto
  show ?case
  proof (cases "m = improver_of g")
    case True
    then have mn: "m \<noteq> NoneYet" by simp
    from Cons.prems(4) st True have fl: "fl = Terminated (p, f)" by simp
    from Cons.prems(3) st mn
    consider (A) g' d1 d2 where "handled = d1 @ g' # d2" "improver_of g' = m"
      | (B) g' t1 t2 where "g # todo = t1 @ g' # t2" "improver_of g' = m"
          "group_stable ext P ci ls tol g' p f" "\<forall>h \<in> set t2. group_stable ext P ci ls tol h p f"
          "\<forall>h \<in> set handled. group_stable ext P ci ls tol h p f"
      by (auto simp: settled_since_def)
    then show ?thesis
    proof cases
      case A
      then have "g' \<in> set handled" by simp
      then have "improver_of g' \<in> improver_of ` set handled" by (rule imageI)
      with A(2) True dist_g(1) show ?thesis by simp
    next
      case B
      have "t1 = []"
      proof (cases t1)
        case Nil
        then show ?thesis .
      next
        case (Cons a t1')
        with B(1) have "g' \<in> set todo" by auto
        then have "improver_of g' \<in> improver_of ` set todo" by (rule imageI)
        with B(2) True dist_g(2) show ?thesis by simp
      qed
      with B(1) have "g' = g" "t2 = todo" by simp_all
      with B val show ?thesis unfolding fl by auto
    qed
  next
    case False
    from Cons.prems(4) st False obtain p' f' u n e2 where
      opt: "optimize_group ext P ci ls tol g p f = (Inr (p', f', u), n)" and
      rest: "spec_cycle ext P ci ls tol todo (p', f', if u then improver_of g else m) = (Inr fl, e2)"
      by (auto split: prod.splits sum.splits)
    have d': "distinct (map improver_of ((handled @ [g]) @ todo))"
      using Cons.prems(1) by simp
    have r': "\<forall>g \<in> set todo. repeatable ext P ci ls tol g"
      using Cons.prems(2) by simp
    have inv': "settled_since ext P ci ls tol (handled @ [g]) todo
                  (p', f', if u then improver_of g else m)"
    proof (cases u)
      case True
      from Cons.prems(2) have "repeatable ext P ci ls tol g" by simp
      moreover from opt True val
      have "optimize_group ext P ci ls tol g p (acqf P p) = (Inr (p', f', True), n)" by simp
      ultimately have v': "f' = acqf P p'" and s': "group_stable ext P ci ls tol g p' f'"
        unfolding repeatable_def by blast+
      from settled_since_handled [OF v' s', of "[]" handled todo] True show ?thesis
        by simp
    next
      case nu: False
      with opt have same: "p' = p" "f' = f" and sg: "group_stable ext P ci ls tol g p f"
        using stable_unchanged [of ext P ci ls tol g p f p' f' n] by simp_all
      show ?thesis
      proof (cases "m = NoneYet")
        case True
        from Cons.prems(3) st True
        have "\<forall>h \<in> set handled. group_stable ext P ci ls tol h p f"
          by (auto simp: settled_since_def)
        with sg have "\<forall>h \<in> set (handled @ [g]). group_stable ext P ci ls tol h p f"
          by simp
        from settled_since_none [OF val this] True nu same show ?thesis by simp
      next
        case mn: False
        from Cons.prems(3) st mn
        consider (A) g' d1 d2 where "handled = d1 @ g' # d2" "improver_of g' = m"
            "group_stable ext P ci ls tol g' p f" "\<forall>h \<in> set d2. group_stable ext P ci ls tol h p f"
          | (B) g' t1 t2 where "g # todo = t1 @ g' # t2" "improver_of g' = m"
            "group_stable ext P ci ls tol g' p f" "\<forall>h \<in> set t2. group_stable ext P ci ls tol h p f"
            "\<forall>h \<in> set handled. group_stable ext P ci ls tol h p f"
          by (auto simp: settled_since_def)
        then show ?thesis
        proof cases
          case A
          have h: "handled @ [g] = d1 @ g' # (d2 @ [g])" using A(1) by simp
          have "\<forall>h \<in> set (d2 @ [g]). group_stable ext P ci ls tol h p f"
            using A(4) sg by simp
          from settled_since_handled [OF val A(3) this, of d1 todo] A(2) nu same
          show ?thesis unfolding h by simp
        next
          case B
          obtain t1' where t1: "t1 = g # t1'"
          proof (cases t1)
            case Nil
            with B(1) have "g' = g" by simp
            with B(2) False show ?thesis by simp
          next
            case (Cons a t1')
            with B(1) have "a = g" by simp
            with Cons that show ?thesis by simp
          qed
          with B(1) have t: "todo = t1' @ g' # t2" by simp
          have "\<forall>h \<in> set (handled @ [g]). group_stable ext P ci ls tol h p f"
            using B(5) sg by simp
          from settled_since_todo [OF val B(3,4) this, of t1'] B(2) nu same
          show ?thesis unfolding t by simp
        qed
      qed
    qed
    have app: "(handled @ [g]) @ todo = handled @ g # todo" by simp
    from Cons.IH [OF d' r' inv' rest] show ?thesis unfolding app .
  qed
qed


lemma spec_driver_settles:
  assumes "distinct (map improver_of gs)"
    and "\<forall>g \<in> set gs. repeatable ext P ci ls tol g"
    and "settled_since ext P ci ls tol [] gs st"
    and "spec_driver ext P ci ls tol gs k st = (Inr (x, v), eff)"
    and "warnings eff = []"
  shows "v = acqf P x \<and> (\<forall>g \<in> set gs. group_stable ext P ci ls tol g x v)"
  using assms(3,4,5)
proof (induction k arbitrary: st eff)
  case 0
  obtain p f m where "st = (p, f, m)" by (cases st)
  with 0 show ?case by (auto simp: no_effects_def)
next
  case (Suc k)
  from Suc.prems(2) obtain fl e1 where
    sc: "spec_cycle ext P ci ls tol gs st = (Inr fl, e1)"
    by (auto split: prod.splits sum.splits)
  have d: "distinct (map improver_of ([] @ gs))" using assms(1) by simp
  note inv = spec_cycle_settles [OF d assms(2) Suc.prems(1) sc]
  show ?case
  proof (cases fl)
    case (Terminated res)
    with Suc.prems(2) sc have "res = (x, v)" by simp
    with inv Terminated show ?thesis by auto
  next
    case (Swept st')
    obtain p f m where st': "st' = (p, f, m)" by (cases st')
    from inv Swept st' have s: "settled_since ext P ci ls tol gs [] (p, f, m)" by simp
    show ?thesis
    proof (cases "m = NoneYet")
      case True
      with Suc.prems(2) sc Swept st' have "p = x" "f = v" by simp_all
      with s True show ?thesis by (auto simp: settled_since_def)
    next
      case False
      from Suc.prems(2) sc Swept st' False obtain e2 where
        rest: "spec_driver ext P ci ls tol gs k (p, f, m) = (Inr (x, v), e2)" and
        eff: "eff = and_then e1 e2"
        by (auto split: prod.splits)
      from eff Suc.prems(3) have w: "warnings e2 = []" by simp
      from s False obtain g d1 d2 where
        gs: "gs = d1 @ g # d2" and g: "improver_of g = m"
        "group_stable ext P ci ls tol g p f" "\<forall>h \<in> set d2. group_stable ext P ci ls tol h p f"
        and val: "f = acqf P p"
        by (auto simp: settled_since_def)
      have "settled_since ext P ci ls tol [] gs (p, f, m)"
        using settled_since_todo [OF val g(2,3), of "[]" d1] g(1) unfolding gs by simp
      from Suc.IH [OF this rest w] show ?thesis .
    qed
  qed
qed

lemma stable_cycle:
  assumes "\<forall>g \<in> set gs. group_stable ext P ci ls tol g x v"
  shows "\<exists>eff. spec_cycle ext P ci ls tol gs (x, v, NoneYet) = (Inr (Swept (x, v, NoneYet)), eff)"
  using assms
proof (induction gs)
  case Nil
  show ?case by simp
next
  case (Cons g gs)
  from Cons.prems have "group_stable ext P ci ls tol g x v" by simp
  then obtain n where opt: "optimize_group ext P ci ls tol g x v = (Inr (x, v, False), n)"
    unfolding group_stable_def by (cases "optimize_group ext P ci ls tol g x v") simp
  from Cons.IH Cons.prems obtain e where
    "spec_cycle ext P ci ls tol gs (x, v, NoneYet) = (Inr (Swept (x, v, NoneYet)), e)"
    by auto
  with opt show ?case by simp
qed

lemma stable_driver:
  assumes "\<forall>g \<in> set gs. group_stable ext P ci ls tol g x v"
  shows "\<exists>eff. spec_driver ext P ci ls tol gs (Suc k) (x, v, NoneYet) = (Inr (x, v), eff)
           \<and> warnings eff = []"
proof -
  from stable_cycle [OF assms] obtain e where
    sc: "spec_cycle ext P ci ls tol gs (x, v, NoneYet) = (Inr (Swept (x, v, NoneYet)), e)"
    by blast
  from spec_cycle_trace [OF sc] have "warnings e = []" by simp
  with sc show ?thesis by simp
qed

lemma np_argmax_nonempty: "xs \<noteq> [] \<Longrightarrow> \<exists>i. np_argmax xs = Inr i"
  by (cases xs) simp_all

lemma exhaustive_search_repeatable:
  assumes two: "\<exists>a \<in> set choices. \<exists>b \<in> set choices. a \<noteq> b"
    and run: "exhaustive_search P p (acqf P p) i choices = (Inr (p', f', True), n)"
  shows "f' = acqf P p' \<and> fst (exhaustive_search P p' f' i choices) = Inr (p', f', False)"
proof -
  let ?cands = "filter (\<lambda>c. c \<noteq> p ! i) choices"
  let ?fv = "map (acqf P) (map (\<lambda>c. p[i := c]) ?cands)"
  from run have i: "i < length p"
    by (auto simp: exhaustive_search_def np_get_def split: if_splits)
  with run obtain b where
    am: "np_argmax ?fv = Inr b" and better: "acqf P p < ?fv ! b" and
    p': "p' = map (\<lambda>c. p[i := c]) ?cands ! b" and f': "f' = ?fv ! b"
    by (auto simp: exhaustive_search_def np_get_def Let_def split: if_splits sum.splits)
  from np_argmax_max [OF am] have bl: "b < length ?fv" and
    mx: "\<forall>v \<in> set ?fv. v \<le> ?fv ! b" by blast+
  from bl have b: "b < length ?cands" by simp
  define c' where "c' = ?cands ! b"
  have c'_in: "c' \<in> set ?cands" unfolding c'_def using b by (rule nth_mem)
  then have c'_ne: "c' \<noteq> p ! i" and c'_ch: "c' \<in> set choices" by simp_all
  have p'_eq: "p' = p[i := c']" using b by (simp add: p' c'_def)
  have f'_eq: "f' = acqf P p'" using b by (simp add: f' p')
  have cur': "np_get p' i = Inr c'" using i by (simp add: np_get_def p'_eq)
  let ?cands' = "filter (\<lambda>c. c \<noteq> c') choices"
  let ?ap' = "map (\<lambda>c. p'[i := c]) ?cands'"
  let ?fv' = "map (acqf P) ?ap'"
  from two obtain a where "a \<in> set choices" "a \<noteq> c'" by metis
  then have "?cands' \<noteq> []" by (auto simp: filter_empty_conv)
  then have "?fv' \<noteq> []" by simp
  from np_argmax_nonempty [OF this] obtain b' where am': "np_argmax ?fv' = Inr b'" by blast
  from np_argmax_max [OF am'] have "b' < length ?fv'" by blast
  then have b': "b' < length ?cands'" by simp
  define c'' where "c'' = ?cands' ! b'"
  have c''_in: "c'' \<in> set ?cands'" unfolding c''_def using b' by (rule nth_mem)
  have val'': "?fv' ! b' = acqf P (p[i := c''])" using b' by (simp add: c''_def p'_eq)
  have le: "acqf P (p[i := c'']) \<le> f'"
  proof (cases "c'' = p ! i")
    case True
    then have "p[i := c''] = p" by simp
    with better f' show ?thesis by simp
  next
    case False
    with c''_in have "c'' \<in> set ?cands" by simp
    then have "acqf P (p[i := c'']) \<in> set ?fv" by auto
    with mx f' show ?thesis by blast
  qed
  have "fst (exhaustive_search P p' f' i choices) = Inr (p', f', False)"
    unfolding exhaustive_search_def cur' using am' val'' le
    by (simp add: Let_def)
  with f'_eq show ?thesis by simp
qed


lemma settles_repeatable:
  assumes "settles ext P ci ls tol g"
  shows "repeatable ext P ci ls tol g"
proof (cases g)
  case ContinuousGroup
  with assms show ?thesis by simp
next
  case (DiscreteGroup i choices xtol)
  show ?thesis
  proof (cases "uses_exhaustive P i choices")
    case False
    with assms DiscreteGroup show ?thesis by simp
  next
    case True
    with assms DiscreteGroup have two: "\<exists>a \<in> set choices. \<exists>b \<in> set choices. a \<noteq> b" by simp
    from True have opt: "\<And>p f. optimize_group ext P ci ls tol g p f
        = exhaustive_search P p f i choices"
      by (auto simp: DiscreteGroup uses_exhaustive_def local_search_discrete_def split: sum.splits)
    show ?thesis
      unfolding repeatable_def group_stable_def opt
      using exhaustive_search_repeatable [OF two] by blast
  qed
qed

lemma local_search_mixed_classify:
  "local_search_mixed ext P x0 tol max_iter =
     (case classify ext P of
        Inl e \<Rightarrow> (Inl e, no_effects)
      | Inr (ci, ls, d) \<Rightarrow>
          case sweeps ext P ci ls tol d (nat max_iter) (x0, acqf P x0, None) of
            (r, eff) \<Rightarrow> (r, and_then (evals 1) eff))"
  by (simp add: local_search_mixed_def classify_def Let_def split: sum.splits)

lemma distinct_np_where: "distinct (np_where Q xs)"
  by (simp add: np_where_def)

lemma classify_distinct:
  assumes "classify ext P = Inr (ci, ls, d)"
  shows "distinct (map improver_of (ContinuousGroup # map discrete_group d))"
proof -
  from assms obtain cs xs where
    d: "d = zip (np_where (\<lambda>s. s > 0) (steps (search_space P))) (zip cs xs)"
    by (auto simp: classify_def Let_def split: sum.splits)
  have "map fst d = take (min (length (np_where (\<lambda>s. s > 0) (steps (search_space P))))
                             (length (zip cs xs)))
                     (np_where (\<lambda>s. s > 0) (steps (search_space P)))"
    unfolding d by (rule map_fst_zip_take)
  then have df: "distinct (map fst d)" by (simp only: distinct_take distinct_np_where)
  have m: "map improver_of (map discrete_group d) = map DiscreteIndex (map fst d)"
    by (induction d) auto
  have "distinct (map DiscreteIndex (map fst d))"
    using df by (simp add: distinct_map inj_on_def del: map_map)
  then have "distinct (TheContinuousGroup # map DiscreteIndex (map fst d))" by auto
  then show ?thesis by (simp only: list.map improver_of.simps m)
qed

text \<open>
  C8 (amended). Let the driver return without the warning, in a space where every group
  settles: an exhaustively searched index has at least two different choices, and the
  continuous optimizer and every line search report the true value of an improved point and
  change nothing when run again from it. Then a second run from the returned vector returns
  the same vector and the same value, again without the warning.
\<close>

theorem local_search_mixed_fixed_point:
  assumes "local_search_mixed ext acqf_params x0 tol max_iter = (Inr (x, v), eff)"
    and "warnings eff = []"
    and "classify ext acqf_params = Inr (ci, ls, d)"
    and "\<forall>g \<in> set (ContinuousGroup # map discrete_group d). settles ext acqf_params ci ls tol g"
  shows "fst (local_search_mixed ext acqf_params x tol max_iter) = Inr (x, v)
     \<and> warnings (snd (local_search_mixed ext acqf_params x tol max_iter)) = []"
proof -
  let ?gs = "ContinuousGroup # map discrete_group d"
  from assms(1,3) obtain e1 where
    sw: "sweeps ext acqf_params ci ls tol d (nat max_iter) (x0, acqf acqf_params x0, None)
           = (Inr (x, v), e1)" and eff: "eff = and_then (evals 1) e1"
    by (auto simp: local_search_mixed_classify split: prod.splits)
  from eff assms(2) have w1: "warnings e1 = []" by simp
  from sw have sd: "spec_driver ext acqf_params ci ls tol ?gs (nat max_iter)
      (x0, acqf acqf_params x0, NoneYet) = (Inr (x, v), e1)"
    using sweeps_refines [of ext acqf_params ci ls tol d "nat max_iter" x0 "acqf acqf_params x0" NoneYet]
    by simp
  have rep: "\<forall>g \<in> set ?gs. repeatable ext acqf_params ci ls tol g"
    using assms(4) settles_repeatable by blast
  have init: "settled_since ext acqf_params ci ls tol [] ?gs (x0, acqf acqf_params x0, NoneYet)"
    by (simp add: settled_since_def)
  from spec_driver_settles [OF classify_distinct [OF assms(3)] rep init sd w1]
  have val: "v = acqf acqf_params x"
    and st: "\<forall>g \<in> set ?gs. group_stable ext acqf_params ci ls tol g x v" by blast+
  obtain k where k: "nat max_iter = Suc k"
  proof (cases "nat max_iter")
    case 0
    with sd w1 show ?thesis by (auto simp: no_effects_def)
  next
    case (Suc k)
    with that show ?thesis .
  qed
  from stable_driver [OF st, of k] obtain e2 where
    sd2: "spec_driver ext acqf_params ci ls tol ?gs (nat max_iter) (x, v, NoneYet) = (Inr (x, v), e2)"
    and w2: "warnings e2 = []"
    unfolding k by blast
  have "sweeps ext acqf_params ci ls tol d (nat max_iter) (x, acqf acqf_params x, None)
      = (Inr (x, v), e2)"
    using sweeps_refines [of ext acqf_params ci ls tol d "nat max_iter" x v NoneYet] sd2 val
    by simp
  with assms(3) have "local_search_mixed ext acqf_params x tol max_iter
      = (Inr (x, v), and_then (evals 1) e2)"
    by (simp add: local_search_mixed_classify)
  with w2 show ?thesis by simp
qed

theorem local_search_mixed_fixed_point_witness:
  "fst (local_search_mixed ex_ext (ex_space [CATEGORICAL] [(0, 2)] [1] sum_list) [0] (1 / 10 ^ 4) 100)
     = Inr ([1], 1)
   \<and> fst (local_search_mixed ex_ext (ex_space [CATEGORICAL] [(0, 2)] [1] sum_list) [1] (1 / 10 ^ 4) 100)
     = Inr ([1], 1)
   \<and> warnings (snd (local_search_mixed ex_ext (ex_space [CATEGORICAL] [(0, 2)] [1] sum_list) [1]
       (1 / 10 ^ 4) 100)) = []"
proof -
  let ?P = "ex_space [CATEGORICAL] [(0, 2)] [1] sum_list"
  have run: "local_search_mixed ex_ext ?P [0] (1 / 10 ^ 4) 100
       = (Inr ([1], 1), \<lparr>n_evals = 2, optimized = [CONTINUOUS, 0, CONTINUOUS], warnings = []\<rparr>)"
    by (simp add: driver_defs ex_space_def ex_ext_def sweeps_pos eval_nat_numeral CONTINUOUS_def)
  have cl: "classify ex_ext ?P = Inr ([], [], [(0, [0, 1], Fin (1 / 4))])"
    by (simp add: classify_def driver_defs ex_space_def ex_ext_def eval_nat_numeral)
  have st: "\<forall>g \<in> set (ContinuousGroup # map discrete_group [(0, [0, 1], Fin (1 / 4))]).
      settles ex_ext ?P [] [] (1 / 10 ^ 4) g"
    by (auto simp: repeatable_def gradient_ascent_def uses_exhaustive_def np_get_def ex_space_def)
  from local_search_mixed_fixed_point [OF run _ cl st] run show ?thesis by simp
qed

text \<open>
  C8 as stated fails in two ways. With the cap reached (here \<open>max_iter = 1\<close>) the driver
  returns \<open>[1, 1]\<close> from \<open>[0, 0]\<close>, and a second run moves on to \<open>[2, 1]\<close>. With the
  default cap and a continuous solver that stops short of the optimum, the convergence test
  returns after the first improvement without running the solver again: the first run
  returns \<open>[1/2]\<close> without a warning, the second run returns \<open>[3/4]\<close>.
\<close>

theorem local_search_mixed_not_idempotent:
  "fst (local_search_mixed ex_ext
          (ex_space [CATEGORICAL, CATEGORICAL] [(0, 3), (0, 3)] [1, 1] ex_ridge) [0, 0] (1 / 10 ^ 4) 1)
     = Inr ([1, 1], 2)
   \<and> fst (local_search_mixed ex_ext
          (ex_space [CATEGORICAL, CATEGORICAL] [(0, 3), (0, 3)] [1, 1] ex_ridge) [1, 1] (1 / 10 ^ 4) 1)
     = Inr ([2, 1], 3)
   \<and> local_search_mixed ex_halfway (ex_space [LINEAR] [(0, 1)] [0] sum_list) [0] (1 / 10 ^ 4) 100
     = (Inr ([1 / 2], 1 / 2), \<lparr>n_evals = 2, optimized = [CONTINUOUS], warnings = []\<rparr>)
   \<and> local_search_mixed ex_halfway (ex_space [LINEAR] [(0, 1)] [0] sum_list) [1 / 2] (1 / 10 ^ 4) 100
     = (Inr ([3 / 4], 3 / 4), \<lparr>n_evals = 2, optimized = [CONTINUOUS], warnings = []\<rparr>)"
  by (simp add: driver_defs ex_space_def ex_ext_def ex_halfway_def sweeps_pos eval_nat_numeral
      CONTINUOUS_def ex_ridge_def call_fmin_l_bfgs_b_def np_div_def math_sqrt_def
      negative_acqf_with_grad_def np_mul_def np_put_def np_true_divide_def)

end
